theory Spec2Isabelle
  imports Main
begin

section \<open>Strings, slices and the two regular expressions of \<^verbatim>\<open>main.go\<close>\<close>

text \<open>
  Go strings and byte slices are sequences of bytes; both are modelled as \<^typ>\<open>string\<close>
  (a list of 8-bit characters), so \<^verbatim>\<open>len\<close> is \<^const>\<open>length\<close> and \<^verbatim>\<open>string(pin)\<close>
  is the identity.
\<close>

type_synonym bytes = string

abbreviation (input) newline :: char where
  "newline \<equiv> CHR 0x0A"

abbreviation (input) dquote :: char where
  "dquote \<equiv> CHR 0x22"

abbreviation (input) backslash :: char where
  "backslash \<equiv> CHR 0x5C"

text \<open>
  Indexing a slice: Go panics with ``index out of range'' when the index is not below the
  length (a nil slice has length 0). \<^const>\<open>None\<close> is that panic.
\<close>

definition goIndex :: "'a list \<Rightarrow> nat \<Rightarrow> 'a option" where
  "goIndex xs i = (if i < length xs then Some (xs ! i) else None)"

definition HasPrefix :: "string \<Rightarrow> string \<Rightarrow> bool" where
  "HasPrefix s p = (take (length p) s = p)"

text \<open>
  \<^verbatim>\<open>strings.Split(s, sep)\<close> for a non-empty separator (the only use in the program): the
  pieces between the non-overlapping occurrences of \<open>sep\<close>, found left to right. The
  result always has at least one element.
\<close>

function splitAcc :: "string \<Rightarrow> string \<Rightarrow> string \<Rightarrow> string list" where
  "splitAcc sep acc [] = [acc]"
| "splitAcc sep acc (c # cs) =
     (if sep \<noteq> [] \<and> HasPrefix (c # cs) sep
      then acc # splitAcc sep [] (drop (length sep) (c # cs))
      else splitAcc sep (acc @ [c]) cs)"
  by pat_completeness auto
termination
  by (relation "measure (\<lambda>(sep, acc, s). length s)") auto

definition strings_Split :: "string \<Rightarrow> string \<Rightarrow> string list" where
  "strings_Split s sep = splitAcc sep [] s"

text \<open>
  \<^verbatim>\<open>strings.ReplaceAll(s, old, new)\<close> for a non-empty \<open>old\<close>: every non-overlapping
  occurrence, left to right, is replaced.
\<close>

function strings_ReplaceAll :: "string \<Rightarrow> string \<Rightarrow> string \<Rightarrow> string" where
  "strings_ReplaceAll [] old new = []"
| "strings_ReplaceAll (c # cs) old new =
     (if old \<noteq> [] \<and> HasPrefix (c # cs) old
      then new @ strings_ReplaceAll (drop (length old) (c # cs)) old new
      else c # strings_ReplaceAll cs old new)"
  by pat_completeness auto
termination
  by (relation "measure (\<lambda>(s, old, new). length s)") auto

subsection \<open>Regular expressions\<close>

text \<open>
  Both patterns of the program are sequences of literal characters and greedy \<^verbatim>\<open>.*\<close>,
  with capture groups around consecutive pieces. In Go's syntax \<^verbatim>\<open>.\<close> matches any
  character but the newline, and matching is leftmost-first: the match starts at the
  leftmost position where one exists and is the one a backtracking matcher finds first,
  so each \<^verbatim>\<open>.*\<close> takes the longest text that still lets the rest of the pattern match.
  The literals of both patterns are ASCII, so matching bytes instead of UTF-8 code points
  gives the same result.
\<close>

datatype item = Lit char | DotStar

record Regexp =
  items :: "item list"
  groups :: "(nat \<times> nat) list"

text \<open>
  \<open>matchHere p s\<close> matches \<open>p\<close> against a prefix of \<open>s\<close> and returns the text taken by
  each item of \<open>p\<close>, in order.
\<close>

fun matchHere :: "item list \<Rightarrow> string \<Rightarrow> string list option" where
  "matchHere [] s = Some []"
| "matchHere (Lit c # r) [] = None"
| "matchHere (Lit c # r) (x # xs) =
     (if x = c then map_option ((#) [c]) (matchHere r xs) else None)"
| "matchHere (DotStar # r) [] = map_option ((#) []) (matchHere r [])"
| "matchHere (DotStar # r) (x # xs) =
     (if x \<noteq> newline
      then (case matchHere (DotStar # r) xs of
              Some (seg # segs) \<Rightarrow> Some ((x # seg) # segs)
            | _ \<Rightarrow> map_option ((#) []) (matchHere r (x # xs)))
      else map_option ((#) []) (matchHere r (x # xs)))"

fun findFirst :: "item list \<Rightarrow> string \<Rightarrow> string list option" where
  "findFirst p [] = matchHere p []"
| "findFirst p (x # xs) =
     (case matchHere p (x # xs) of Some segs \<Rightarrow> Some segs | None \<Rightarrow> findFirst p xs)"

text \<open>
  \<^verbatim>\<open>re.FindStringSubmatch(s)\<close>: the whole match followed by the text of each group, or
  the nil slice (here \<open>[]\<close>) when there is no match. A group \<open>(i, j)\<close> spans the items
  \<open>i, ..., j - 1\<close> of the pattern.
\<close>

definition FindStringSubmatch :: "Regexp \<Rightarrow> string \<Rightarrow> string list" where
  "FindStringSubmatch re s =
     (case findFirst (items re) s of
        None \<Rightarrow> []
      | Some segs \<Rightarrow>
          concat segs # map (\<lambda>(i, j). concat (take (j - i) (drop i segs))) (groups re))"

text \<open>\<^verbatim>\<open>emailRegex = regexp.MustCompile(`\"(?P<name>.*<(?P<email>.*)>)\"`)\<close>\<close>

definition emailRegex :: Regexp where
  "emailRegex =
     \<lparr>items = [Lit dquote, DotStar, Lit CHR ''<'', DotStar, Lit CHR ''>'', Lit dquote],
      groups = [(1, 5), (3, 4)]\<rparr>"

text \<open>\<^verbatim>\<open>keyIDRegex = regexp.MustCompile(`ID (?P<keyId>.*),`)\<close>\<close>

definition keyIDRegex :: Regexp where
  "keyIDRegex =
     \<lparr>items = [Lit CHR ''I'', Lit CHR ''D'', Lit CHR '' '', DotStar, Lit CHR '',''],
      groups = [(3, 4)]\<rparr>"

section \<open>The collaborators: keychain, prompt helper, authenticator, logs\<close>

text \<open>
  Errors are Go \<^verbatim>\<open>error\<close> values. The program compares one against the sentinel
  \<^verbatim>\<open>keychain.ErrorDuplicateItem\<close> and builds one with \<^verbatim>\<open>fmt.Errorf\<close> (format, the
  quoted binary name, the wrapped error); every other error is opaque.
\<close>

datatype error = ErrorDuplicateItem | ErrorOther string | Errorf string string error

datatype SecClass = SecClassGenericPassword
datatype Synchronizable = SynchronizableNo
datatype Accessible = AccessibleWhenUnlocked
datatype MatchLimit = MatchLimitOne

text \<open>
  A \<^verbatim>\<open>keychain.Item\<close> is a set of attributes filled in by its setters, used both as a
  query and as the item to add; an attribute never set is \<^const>\<open>None\<close>.
\<close>

record Item =
  SecClass :: "SecClass option"
  Service :: "string option"
  Account :: "string option"
  Label :: "string option"
  Data :: "bytes option"
  Synchronizable :: "Synchronizable option"
  Accessible :: "Accessible option"
  MatchLimit :: "MatchLimit option"
  ReturnData :: "bool option"
  ReturnAttributes :: "bool option"

definition NewItem :: Item where
  "NewItem =
     \<lparr>SecClass = None, Service = None, Account = None, Label = None, Data = None,
      Synchronizable = None, Accessible = None, MatchLimit = None, ReturnData = None,
      ReturnAttributes = None\<rparr>"

record QueryResult =
  resService :: string
  resAccount :: string
  resLabel :: string
  resData :: bytes

text \<open>The two fields of \<^verbatim>\<open>pinentry.Settings\<close> that the program reads.\<close>

record Settings =
  Desc :: string
  KeyInfo :: string

text \<open>
  The libraries behind the program are parameters: each call takes the state of the outside
  world \<open>'w\<close> and returns its Go result with the new state. \<open>pinentry_GetPin\<close> receives the
  values set on the helper with \<^verbatim>\<open>p.Set\<close> before \<^verbatim>\<open>p.GetPin()\<close>.
\<close>

record 'w Env =
  keychain_QueryItem :: "Item \<Rightarrow> 'w \<Rightarrow> (QueryResult list \<times> error option) \<times> 'w"
  keychain_AddItem :: "Item \<Rightarrow> 'w \<Rightarrow> error option \<times> 'w"
  pinentry_GetBinary :: string
  pinentry_New :: "'w \<Rightarrow> error option \<times> 'w"
  pinentry_GetPin :: "(string \<times> string) list \<Rightarrow> 'w \<Rightarrow> (bytes \<times> error option) \<times> 'w"

text \<open>\<^verbatim>\<open>type AuthFunc func(reason string) (bool, error)\<close>\<close>

type_synonym 'w AuthFunc = "string \<Rightarrow> 'w \<Rightarrow> (bool \<times> error option) \<times> 'w"

text \<open>
  What a run does is recorded as a trace: every call of a collaborator with its result, and
  every line handed to a logger (\<^verbatim>\<open>logger.Printf\<close>, \<^verbatim>\<open>logger.Fatalf\<close>, and
  \<^verbatim>\<open>log.Printf\<close> of the standard logger) as its format with its arguments.
\<close>

datatype fmtarg = ArgString string | ArgError error

datatype event =
    EvQueryItem Item "QueryResult list \<times> error option"
  | EvAddItem Item "error option"
  | EvPinentryNew "error option"
  | EvPinentryGetPin "(string \<times> string) list" "bytes \<times> error option"
  | EvAuth string "bool \<times> error option"
  | LoggerPrintf string "fmtarg list"
  | LoggerFatalf string "fmtarg list"
  | LogPrintf string "fmtarg list"

text \<open>
  A call of a collaborator in world \<open>w\<close> gives its result, the new world and the event it
  leaves in the trace.
\<close>

definition call :: "('w \<Rightarrow> 'r \<times> 'w) \<Rightarrow> ('r \<Rightarrow> event) \<Rightarrow> 'w \<Rightarrow> 'r \<times> 'w \<times> event list" where
  "call f ev w = (case f w of (r, w') \<Rightarrow> (r, w', [ev r]))"

text \<open>\<open>emit t r\<close> is the run \<open>r\<close> after the events \<open>t\<close> have already happened.\<close>

definition emit :: "event list \<Rightarrow> 'r \<times> 'w \<times> event list \<Rightarrow> 'r \<times> 'w \<times> event list" where
  "emit t r = (case r of (x, w', t') \<Rightarrow> (x, w', t @ t'))"

text \<open>
  A call of the callback ends in one of three ways: it returns \<^verbatim>\<open>(string, *common.Error)\<close>,
  it panics, or \<^verbatim>\<open>logger.Fatalf\<close> ends the process with \<^verbatim>\<open>os.Exit(1)\<close>.
\<close>

datatype stop = Panic | Exit

type_synonym common_Error = string

datatype outcome = Return string "common_Error option" | Stopped stop

section \<open>The functions of \<^verbatim>\<open>main.go\<close>\<close>

text \<open>The query of \<open>checkEntryInKeychain\<close>: attributes only, no data.\<close>

definition metadataQuery :: "string \<Rightarrow> Item" where
  "metadataQuery label =
     NewItem\<lparr>SecClass := Some SecClassGenericPassword, Label := Some label,
       MatchLimit := Some MatchLimitOne, ReturnData := Some False,
       ReturnAttributes := Some True\<rparr>"

definition checkEntryInKeychain ::
  "'w Env \<Rightarrow> string \<Rightarrow> 'w \<Rightarrow> (bool \<times> error option) \<times> 'w \<times> event list" where
  "checkEntryInKeychain env label w =
     (let query = metadataQuery label
      in case call (keychain_QueryItem env query) (EvQueryItem query) w of
           ((results, Some err), w', t) \<Rightarrow> ((False, Some err), w', t)
         | ((results, None), w', t) \<Rightarrow> ((length results = 1, None), w', t))"

text \<open>The query of \<open>passwordFromKeychain\<close>: it asks for the data.\<close>

definition dataQuery :: "string \<Rightarrow> Item" where
  "dataQuery label =
     NewItem\<lparr>SecClass := Some SecClassGenericPassword, Label := Some label,
       MatchLimit := Some MatchLimitOne, ReturnData := Some True\<rparr>"

text \<open>
  \<open>passwordFromKeychain\<close> reads \<^verbatim>\<open>results[0]\<close> after excluding only more than one
  result; \<^const>\<open>None\<close> is the panic of that index expression.
\<close>

definition passwordFromKeychain ::
  "'w Env \<Rightarrow> string \<Rightarrow> 'w \<Rightarrow> (string \<times> error option) option \<times> 'w \<times> event list" where
  "passwordFromKeychain env label w =
     (let query = dataQuery label
      in case call (keychain_QueryItem env query) (EvQueryItem query) w of
           ((results, Some err), w', t) \<Rightarrow> (Some ([], Some err), w', t)
         | ((results, None), w', t) \<Rightarrow>
             if length results > 1
             then (Some ([], Some (ErrorOther ''multiple passwords matched the query'')), w', t)
             else (case goIndex results 0 of
                     None \<Rightarrow> (None, w', t)
                   | Some r \<Rightarrow> (Some (resData r, None), w', t)))"

text \<open>The item that \<open>storePasswordInKeychain\<close> adds.\<close>

definition passwordItem :: "string \<Rightarrow> string \<Rightarrow> bytes \<Rightarrow> Item" where
  "passwordItem label keyInfo pin =
     NewItem\<lparr>SecClass := Some SecClassGenericPassword, Service := Some ''GnuPG'',
       Account := Some keyInfo, Label := Some label, Data := Some pin,
       Synchronizable := Some SynchronizableNo,
       Accessible := Some AccessibleWhenUnlocked\<rparr>"

definition storePasswordInKeychain ::
  "'w Env \<Rightarrow> string \<Rightarrow> string \<Rightarrow> bytes \<Rightarrow> 'w \<Rightarrow> error option \<times> 'w \<times> event list" where
  "storePasswordInKeychain env label keyInfo pin w =
     (let item = passwordItem label keyInfo pin
      in case call (keychain_AddItem env item) (EvAddItem item) w of
           (Some err, w', t) \<Rightarrow> (Some err, w', t)
         | (None, w', t) \<Rightarrow> (None, w', t))"

text \<open>
  What \<open>askForPassword\<close> sets on the helper before it asks for the PIN. The deferred
  \<^verbatim>\<open>p.Close()\<close> is left out: nothing the callback does afterwards depends on it.
\<close>

definition helperSettings :: "Settings \<Rightarrow> (string \<times> string) list" where
  "helperSettings s =
     [(''title'', ''pinentry-mac-touchid PIN Prompt''),
      (''desc'', strings_ReplaceAll (Desc s) [newline] [backslash, CHR ''n'']),
      (''prompt'', ''Please enter your PIN:''),
      (''KEYINFO'', KeyInfo s)]"

definition askForPassword ::
  "'w Env \<Rightarrow> Settings \<Rightarrow> 'w \<Rightarrow> (bytes \<times> error option) \<times> 'w \<times> event list" where
  "askForPassword env s w =
     (case call (pinentry_New env) EvPinentryNew w of
        (Some err, w', t) \<Rightarrow>
          (([], Some (Errorf ''failed to start %q: %w'' (pinentry_GetBinary env) err)), w', t)
      | (None, w', t) \<Rightarrow>
          emit t (call (pinentry_GetPin env (helperSettings s))
                       (EvPinentryGetPin (helperSettings s)) w'))"

text \<open>
  The loggers: \<^verbatim>\<open>Printf\<close> leaves a line and goes on, \<^verbatim>\<open>Fatalf\<close> leaves a line and
  exits the process.
\<close>

definition logger_Printf :: "string \<Rightarrow> fmtarg list \<Rightarrow> event list" where
  "logger_Printf format args = [LoggerPrintf format args]"

definition logger_Fatalf :: "string \<Rightarrow> fmtarg list \<Rightarrow> 'w \<Rightarrow> outcome \<times> 'w \<times> event list" where
  "logger_Fatalf format args w = (Stopped Exit, w, [LoggerFatalf format args])"

definition log_Printf :: "string \<Rightarrow> fmtarg list \<Rightarrow> event list" where
  "log_Printf format args = [LogPrintf format args]"

text \<open>\<^verbatim>\<open>fmt.Sprintf("%s <%s> (%s)", name, email, keyID)\<close>\<close>

definition keychainLabel :: "string \<Rightarrow> string \<Rightarrow> string \<Rightarrow> string" where
  "keychainLabel name email keyID = name @ '' <'' @ email @ ''> ('' @ keyID @ '')''"

text \<open>\<^verbatim>\<open>fmt.Sprintf("access the PIN for %s", keychainLabel)\<close>\<close>

definition authReason :: "string \<Rightarrow> string" where
  "authReason label = ''access the PIN for '' @ label"

text \<open>
  The callback returned by \<open>GetPIN\<close> is modelled in three parts, in the order of its body.
  \<open>parseDesc\<close> is lines 153 to 161: the two regular expressions and the length check of the
  key ID. It gives the name, the email and the key ID, or how the callback stops and what
  it logged.
\<close>

definition parseDesc :: "string \<Rightarrow> stop \<times> event list + string \<times> string \<times> string" where
  "parseDesc desc =
     (let matches = FindStringSubmatch emailRegex desc in
      case goIndex matches 1 of
        None \<Rightarrow> Inl (Panic, [])
      | Some m1 \<Rightarrow>
     (case goIndex (strings_Split m1 '' <'') 0 of
        None \<Rightarrow> Inl (Panic, [])
      | Some name \<Rightarrow>
     (case goIndex matches 2 of
        None \<Rightarrow> Inl (Panic, [])
      | Some email \<Rightarrow>
     (let matches = FindStringSubmatch keyIDRegex desc in
      case goIndex matches 1 of
        None \<Rightarrow> Inl (Panic, [])
      | Some keyID \<Rightarrow>
          if length keyID \<noteq> 8 \<and> length keyID \<noteq> 16
          then Inl (Exit, [LoggerFatalf ''Invalid keyID: %s'' [ArgString keyID]])
          else Inr (name, email, keyID)))))"

text \<open>Lines 178 to 215, the body of \<^verbatim>\<open>if !exists\<close>: the first capture of a PIN.\<close>

definition firstCapture :: "'w Env \<Rightarrow> Settings \<Rightarrow> string \<Rightarrow> 'w \<Rightarrow> outcome \<times> 'w \<times> event list" where
  "firstCapture env s label w =
     (case askForPassword env s w of
        ((pin, err), w1, t1) \<Rightarrow>
     emit (t1 @ (case err of
                   Some e \<Rightarrow> logger_Printf ''Error calling pinentry-mac: %s'' [ArgError e]
                 | None \<Rightarrow> []))
     (if length pin = 0
      then logger_Fatalf (''pinentry-mac didn'' @ [CHR 0x27] @ ''t return a password'') [] w1
      else
     (case goIndex (strings_Split (KeyInfo s) ''/'') 1 of
        None \<Rightarrow> (Stopped Panic, w1, [])
      | Some keyInfo \<Rightarrow>
     (case checkEntryInKeychain env label w1 of
        ((exists, Some e), w2, t2) \<Rightarrow>
          emit t2 (logger_Fatalf ''error checking entry in keychain: %s'' [ArgError e] w2)
      | ((exists, None), w2, t2) \<Rightarrow>
          emit t2
          (if \<not> exists
           then (case storePasswordInKeychain env label keyInfo pin w2 of
                   (err, w3, t3) \<Rightarrow>
                     emit t3
                     (if err = Some ErrorDuplicateItem
                      then logger_Fatalf ''Duplicated entry in the keychain'' [] w3
                      else (Return pin None, w3, [])))
           else (Return pin None, w2,
                 logger_Printf
                   ''The keychain entry was created by pinentry-mac. Permission will be required on next run.''
                   []))))))"

text \<open>Lines 217 to 234: an entry exists, and the authenticator guards the read.\<close>

definition repeatAccess :: "'w AuthFunc \<Rightarrow> 'w Env \<Rightarrow> string \<Rightarrow> 'w \<Rightarrow> outcome \<times> 'w \<times> event list" where
  "repeatAccess fn env label w =
     (case call (fn (authReason label)) (EvAuth (authReason label)) w of
        ((ok, Some e), w1, t1) \<Rightarrow>
          emit t1 (logger_Fatalf ''Error authenticating with Touch ID: %s'' [ArgError e] w1)
      | ((ok, None), w1, t1) \<Rightarrow>
          emit t1
          (if \<not> ok
           then (Return [] None, w1, logger_Printf ''Failed to authenticate'' [])
           else (case passwordFromKeychain env label w1 of
                   (None, w2, t2) \<Rightarrow> (Stopped Panic, w2, t2)
                 | (Some (password, err), w2, t2) \<Rightarrow>
                     (Return password None, w2,
                      t2 @ (case err of
                              Some e \<Rightarrow>
                                log_Printf ''Error fetching password from Keychain %s'' [ArgError e]
                            | None \<Rightarrow> [])))))"

definition GetPIN :: "'w AuthFunc \<Rightarrow> 'w Env \<Rightarrow> Settings \<Rightarrow> 'w \<Rightarrow> outcome \<times> 'w \<times> event list" where
  "GetPIN fn env s w =
     (case parseDesc (Desc s) of
        Inl (stopped, t) \<Rightarrow> (Stopped stopped, w, t)
      | Inr (name, email, keyID) \<Rightarrow>
     (let label = keychainLabel name email keyID in
      case checkEntryInKeychain env label w of
        ((exists, Some e), w1, t1) \<Rightarrow>
          emit t1 (logger_Fatalf ''error checking entry in keychain: %s'' [ArgError e] w1)
      | ((exists, None), w1, t1) \<Rightarrow>
          emit t1
          (if \<not> exists then firstCapture env s label w1
           else repeatAccess fn env label w1)))"

text \<open>Three views of a trace: the lines logged, the reads of stored data, the writes.\<close>

fun isLog :: "event \<Rightarrow> bool" where
  "isLog (LoggerPrintf f args) = True"
| "isLog (LoggerFatalf f args) = True"
| "isLog (LogPrintf f args) = True"
| "isLog e = False"

fun isPayloadRead :: "event \<Rightarrow> bool" where
  "isPayloadRead (EvQueryItem query r) = (ReturnData query = Some True)"
| "isPayloadRead e = False"

fun isStoreWrite :: "event \<Rightarrow> bool" where
  "isStoreWrite (EvAddItem item r) = True"
| "isStoreWrite e = False"

text \<open>The arguments of a logged line.\<close>

fun logArgs :: "event \<Rightarrow> fmtarg list" where
  "logArgs (LoggerPrintf f args) = args"
| "logArgs (LoggerFatalf f args) = args"
| "logArgs (LogPrintf f args) = args"
| "logArgs e = []"

definition logOutput :: "event list \<Rightarrow> event list" where
  "logOutput t = filter isLog t"

definition payloadReads :: "event list \<Rightarrow> event list" where
  "payloadReads t = filter isPayloadRead t"

definition storeWrites :: "event list \<Rightarrow> event list" where
  "storeWrites t = filter isStoreWrite t"

section \<open>A small world to run the callback in\<close>

text \<open>
  An in-memory keychain with a scripted user, used to run the callback on concrete
  requests. A query returns at most one item with the queried label, and its data only
  when the query asks for it; a query for data fails with \<open>readError\<close> when that is set.
  Adding fails with \<open>addError\<close> when that is set, with
  \<^const>\<open>ErrorDuplicateItem\<close> when an item with the same service and account exists, and
  stores the item otherwise. The helper returns what the user types and, when
  \<open>helperSaves\<close> holds an item, stores that item itself.
\<close>

record World =
  stored :: "Item list"
  userTypes :: bytes
  helperSaves :: "Item option"
  addError :: "error option"
  readError :: "error option"
  touchID :: "bool \<times> error option"

definition toResult :: "Item \<Rightarrow> Item \<Rightarrow> QueryResult" where
  "toResult query i =
     \<lparr>resService = (case Service i of Some x \<Rightarrow> x | None \<Rightarrow> []),
      resAccount = (case Account i of Some x \<Rightarrow> x | None \<Rightarrow> []),
      resLabel = (case Label i of Some x \<Rightarrow> x | None \<Rightarrow> []),
      resData = (if ReturnData query = Some True
                 then (case Data i of Some x \<Rightarrow> x | None \<Rightarrow> []) else [])\<rparr>"

definition demoEnv :: "World Env" where
  "demoEnv =
     \<lparr>keychain_QueryItem = (\<lambda>query w.
        if ReturnData query = Some True \<and> readError w \<noteq> None
        then (([], readError w), w)
        else ((map (toResult query)
                 (take 1 (filter (\<lambda>i. Label i = Label query) (stored w))), None), w)),
      keychain_AddItem = (\<lambda>item w.
        case addError w of
          Some e \<Rightarrow> (Some e, w)
        | None \<Rightarrow>
            if list_ex (\<lambda>i. Service i = Service item \<and> Account i = Account item) (stored w)
            then (Some ErrorDuplicateItem, w)
            else (None, w\<lparr>stored := stored w @ [item]\<rparr>)),
      pinentry_GetBinary = ''pinentry-mac'',
      pinentry_New = (\<lambda>w. (None, w)),
      pinentry_GetPin = (\<lambda>sets w.
        ((userTypes w, None),
         (case helperSaves w of
            Some item \<Rightarrow> w\<lparr>stored := stored w @ [item]\<rparr>
          | None \<Rightarrow> w)))\<rparr>"

definition demoAuth :: "World AuthFunc" where
  "demoAuth reason w = (touchID w, w)"

definition emptyWorld :: World where
  "emptyWorld =
     \<lparr>stored = [], userTypes = ''1234'', helperSaves = None, addError = None,
      readError = None, touchID = (True, None)\<rparr>"

text \<open>The request of the specification's scenario A, and the item stored for it.\<close>

definition aliceDesc :: string where
  "aliceDesc = [dquote] @ ''Alice <alice@example.com>'' @ [dquote] @ '' key, ID A1B2C3D4,''"

definition aliceLabel :: string where
  "aliceLabel = ''Alice <alice@example.com> (A1B2C3D4)''"

definition aliceSettings :: Settings where
  "aliceSettings = \<lparr>Desc = aliceDesc, KeyInfo = ''n/CACHEID''\<rparr>"

definition aliceItem :: "bytes \<Rightarrow> Item" where
  "aliceItem pin = passwordItem aliceLabel ''CACHEID'' pin"

text \<open>A world where the entry of scenario A exists and the authenticator denies.\<close>

definition deniedWorld :: World where
  "deniedWorld = emptyWorld\<lparr>stored := [aliceItem ''9999''], touchID := (False, None)\<rparr>"

text \<open>Worlds for the other scenarios: the user cancels the prompt; the helper stores the
  entry itself; adding to the keychain fails; reading from it fails.\<close>

definition cancelWorld :: World where
  "cancelWorld = emptyWorld\<lparr>userTypes := []\<rparr>"

definition raceWorld :: World where
  "raceWorld = emptyWorld\<lparr>helperSaves := Some (aliceItem ''1234'')\<rparr>"

definition addFailsWorld :: World where
  "addFailsWorld = emptyWorld\<lparr>addError := Some (ErrorOther ''errSecNotAvailable'')\<rparr>"


text \<open>The line \<open>firstCapture\<close> logs when the helper returned an error.\<close>

abbreviation (input) helperErrorLine :: "error option \<Rightarrow> event list" where
  "helperErrorLine err \<equiv>
     (case err of
        Some e \<Rightarrow> logger_Printf ''Error calling pinentry-mac: %s'' [ArgError e]
      | None \<Rightarrow> [])"

text \<open>
  The substring of a correlation id after its first \<^verbatim>\<open>/\<close>, in the words of the
  specification.
\<close>

definition afterFirstSlash :: "string \<Rightarrow> string" where
  "afterFirstSlash s = drop 1 (dropWhile (\<lambda>c. c \<noteq> CHR ''/'') s)"

section \<open>What the description must contain\<close>

text \<open>
  The two patterns in the words of the specification: a description contains the quoted
  \<^verbatim>\<open>"Name <email>"\<close> pattern, and the \<^verbatim>\<open>ID <keyId>,\<close> pattern, when it has a piece of
  that shape on one line (the \<^verbatim>\<open>.\<close> of the regular expressions does not match a newline).
\<close>

definition quotedNameEmailPresent :: "string \<Rightarrow> bool" where
  "quotedNameEmailPresent d \<longleftrightarrow>
     (\<exists>pre a e post. d = pre @ [dquote] @ a @ ''<'' @ e @ ''>'' @ [dquote] @ post
        \<and> newline \<notin> set a \<and> newline \<notin> set e)"

definition keyIdPatternPresent :: "string \<Rightarrow> bool" where
  "keyIdPatternPresent d \<longleftrightarrow>
     (\<exists>pre k post. d = pre @ ''ID '' @ k @ '','' @ post \<and> newline \<notin> set k)"

text \<open>\<open>accepts p s\<close>: some prefix of \<open>s\<close> is in the language of the pattern \<open>p\<close>.\<close>

fun accepts :: "item list \<Rightarrow> string \<Rightarrow> bool" where
  "accepts [] s = True"
| "accepts (Lit c # r) s = (\<exists>xs. s = c # xs \<and> accepts r xs)"
| "accepts (DotStar # r) s = (\<exists>a b. s = a @ b \<and> newline \<notin> set a \<and> accepts r b)"

text \<open>The key ID that the callback extracts from a description, if the pattern matches.\<close>

definition extractedKeyID :: "string \<Rightarrow> string option" where
  "extractedKeyID d = goIndex (FindStringSubmatch keyIDRegex d) 1"

text \<open>Descriptions like the one of scenario A, with a key ID of any length.\<close>

definition descWithKeyID :: "string \<Rightarrow> string" where
  "descWithKeyID k =
     [dquote] @ ''Alice <alice@example.com>'' @ [dquote] @ '' key, ID '' @ k @ '',''"

section \<open>Runs that differ only in the secret bytes\<close>

text \<open>
  The secret bytes of a run are the PIN that the helper returns and the data that the
  keychain returns. \<open>withSecrets f finv g env\<close> is the environment \<open>env\<close> with other secret
  bytes: the user types \<open>f pin\<close> where it was \<open>pin\<close>, and the keychain holds \<open>g data\<close> where
  it was \<open>data\<close>. \<open>finv\<close> undoes \<open>f\<close> on the way into the keychain, so that the outside
  world takes the same steps in both environments. Everything else (results, errors, the
  authenticator) is the same.
\<close>

definition withSecrets ::
  "(bytes \<Rightarrow> bytes) \<Rightarrow> (bytes \<Rightarrow> bytes) \<Rightarrow> (bytes \<Rightarrow> bytes) \<Rightarrow> 'w Env \<Rightarrow> 'w Env" where
  "withSecrets f finv g env =
     env\<lparr>pinentry_GetPin := (\<lambda>sets w.
            case pinentry_GetPin env sets w of ((pin, err), w') \<Rightarrow> ((f pin, err), w')),
         keychain_AddItem := (\<lambda>item w.
            keychain_AddItem env (item\<lparr>Data := map_option finv (Data item)\<rparr>) w),
         keychain_QueryItem := (\<lambda>query w.
            case keychain_QueryItem env query w of
              ((results, err), w') \<Rightarrow>
                ((map (\<lambda>r. r\<lparr>resData := g (resData r)\<rparr>) results, err), w'))\<rparr>"

text \<open>
  What is left of a run for someone who reads the logs and sees how the call ended, but not
  the secret it returned: the kind of outcome with its error, the world, the lines logged.
\<close>

fun redact :: "outcome \<Rightarrow> outcome" where
  "redact (Return password err) = Return [] err"
| "redact (Stopped x) = Stopped x"

definition observe :: "outcome \<times> 'w \<times> event list \<Rightarrow> outcome \<times> 'w \<times> event list" where
  "observe r = (redact (fst r), fst (snd r), logOutput (snd (snd r)))"

section \<open>Basic facts about the runs\<close>

lemma emit_eq: "emit t r = (x, w', t') \<longleftrightarrow> (\<exists>t''. r = (x, w', t'') \<and> t' = t @ t'')"
  by (cases r) (auto simp: emit_def)

lemma run_tripleI: "fst r = x \<Longrightarrow> fst (snd r) = w \<Longrightarrow> \<exists>t. r = (x, w, t)"
  by (cases r) auto

lemma views_append:
  "payloadReads (a @ b) = payloadReads a @ payloadReads b"
  "storeWrites (a @ b) = storeWrites a @ storeWrites b"
  "logOutput (a @ b) = logOutput a @ logOutput b"
  by (simp_all add: payloadReads_def storeWrites_def logOutput_def)

lemma views_Nil: "payloadReads [] = []" "storeWrites [] = []" "logOutput [] = []"
  by (simp_all add: payloadReads_def storeWrites_def logOutput_def)

lemma views_Cons:
  "payloadReads (e # t) = (if isPayloadRead e then e # payloadReads t else payloadReads t)"
  "storeWrites (e # t) = (if isStoreWrite e then e # storeWrites t else storeWrites t)"
  "logOutput (e # t) = (if isLog e then e # logOutput t else logOutput t)"
  by (simp_all add: payloadReads_def storeWrites_def logOutput_def)

lemmas views = views_append views_Nil views_Cons

lemma metadataQuery_ReturnData: "ReturnData (metadataQuery label) = Some False"
  by (simp add: metadataQuery_def NewItem_def)

lemma checkEntryInKeychain_trace:
  "checkEntryInKeychain env label w = (r, w', t) \<Longrightarrow>
     \<exists>res. t = [EvQueryItem (metadataQuery label) res]"
  by (auto simp: checkEntryInKeychain_def call_def Let_def split: prod.splits option.splits)

lemma checkEntryInKeychain_views:
  assumes "checkEntryInKeychain env label w = (r, w', t)"
  shows "payloadReads t = []" and "storeWrites t = []" and "logOutput t = []"
  using checkEntryInKeychain_trace [OF assms]
  by (auto simp: payloadReads_def storeWrites_def logOutput_def metadataQuery_ReturnData)

lemma askForPassword_views:
  assumes "askForPassword env s w = (r, w', t)"
  shows "payloadReads t = []" and "storeWrites t = []" and "logOutput t = []"
  using assms
  by (auto simp: askForPassword_def call_def emit_def payloadReads_def storeWrites_def
        logOutput_def split: prod.splits option.splits)

lemma storePasswordInKeychain_trace:
  "storePasswordInKeychain env label keyInfo pin w = (serr, w', t) \<Longrightarrow>
     t = [EvAddItem (passwordItem label keyInfo pin) serr]"
  by (auto simp: storePasswordInKeychain_def call_def Let_def split: prod.splits option.splits)

lemma storePasswordInKeychain_AddItem:
  "storePasswordInKeychain env label keyInfo pin w = (serr, w', t) \<longleftrightarrow>
     keychain_AddItem env (passwordItem label keyInfo pin) w = (serr, w')
     \<and> t = [EvAddItem (passwordItem label keyInfo pin) serr]"
  by (auto simp: storePasswordInKeychain_def call_def Let_def split: prod.splits option.splits)

lemma helperErrorLine_views:
  "payloadReads (helperErrorLine err) = []" "storeWrites (helperErrorLine err) = []"
  by (auto simp: payloadReads_def storeWrites_def logger_Printf_def split: option.splits)

lemma GetPIN_found:
  assumes "parseDesc (Desc s) = Inr (name, email, keyID)"
    and "checkEntryInKeychain env (keychainLabel name email keyID) w = ((True, None), w1, t1)"
  shows "GetPIN fn env s w = emit t1 (repeatAccess fn env (keychainLabel name email keyID) w1)"
  using assms by (simp add: GetPIN_def)

lemma GetPIN_absent:
  assumes "parseDesc (Desc s) = Inr (name, email, keyID)"
    and "checkEntryInKeychain env (keychainLabel name email keyID) w = ((False, None), w1, t1)"
  shows "GetPIN fn env s w = emit t1 (firstCapture env s (keychainLabel name email keyID) w1)"
  using assms by (simp add: GetPIN_def)

lemma GetPIN_first_capture:
  assumes parsed: "parseDesc (Desc s) = Inr (name, email, keyID)"
    and label: "label = keychainLabel name email keyID"
    and absent: "checkEntryInKeychain env label w = ((False, None), w1, t1)"
    and run: "GetPIN fn env s w = (out, w', t)"
  obtains t' where "firstCapture env s label w1 = (out, w', t')" and "t = t1 @ t'"
proof -
  have "GetPIN fn env s w = emit t1 (firstCapture env s label w1)"
    using GetPIN_absent [OF parsed absent [unfolded label]] label by simp
  with run have "emit t1 (firstCapture env s label w1) = (out, w', t)"
    by simp
  then obtain t' where "firstCapture env s label w1 = (out, w', t')" and "t = t1 @ t'"
    unfolding emit_eq by blast
  then show thesis using that by blast
qed

section \<open>Parsing the description\<close>

lemma splitAcc_nonempty: "splitAcc sep acc s \<noteq> []"
  by (induction sep acc s rule: splitAcc.induct) auto

lemma Split_first: "\<exists>name. goIndex (strings_Split m sep) 0 = Some name"
  using splitAcc_nonempty [of sep "[]" m] by (simp add: strings_Split_def goIndex_def)

lemma matchHere_DotStar_not_empty: "matchHere (DotStar # r) s \<noteq> Some []"
  by (cases s) (auto split: option.splits list.splits)

lemma accepts_DotStar_Cons:
  "accepts (DotStar # r) (x # xs) \<longleftrightarrow>
     accepts r (x # xs) \<or> (x \<noteq> newline \<and> accepts (DotStar # r) xs)"
proof
  assume "accepts (DotStar # r) (x # xs)"
  then obtain a b where ab: "x # xs = a @ b" "newline \<notin> set a" "accepts r b" by auto
  show "accepts r (x # xs) \<or> (x \<noteq> newline \<and> accepts (DotStar # r) xs)"
  proof (cases a)
    case Nil
    with ab show ?thesis by simp
  next
    case (Cons y ys)
    with ab have "x \<noteq> newline" "xs = ys @ b" "newline \<notin> set ys" by auto
    with ab(3) show ?thesis by auto
  qed
next
  assume "accepts r (x # xs) \<or> (x \<noteq> newline \<and> accepts (DotStar # r) xs)"
  then show "accepts (DotStar # r) (x # xs)"
  proof
    assume "accepts r (x # xs)"
    then have "x # xs = [] @ (x # xs) \<and> newline \<notin> set [] \<and> accepts r (x # xs)" by simp
    then show ?thesis unfolding accepts.simps by blast
  next
    assume "x \<noteq> newline \<and> accepts (DotStar # r) xs"
    then obtain a b where "x \<noteq> newline" "xs = a @ b" "newline \<notin> set a" "accepts r b" by auto
    then have "x # xs = (x # a) @ b \<and> newline \<notin> set (x # a) \<and> accepts r b" by simp
    then show ?thesis unfolding accepts.simps by blast
  qed
qed

lemma matchHere_accepts: "matchHere p s \<noteq> None \<longleftrightarrow> accepts p s"
proof (induction p s rule: matchHere.induct)
  case (5 r x xs)
  show ?case
  proof (cases "x = newline")
    case True
    with 5 show ?thesis by (simp add: accepts_DotStar_Cons del: accepts.simps)
  next
    case False
    show ?thesis
    proof (cases "matchHere (DotStar # r) xs")
      case None
      with False 5 show ?thesis by (simp add: accepts_DotStar_Cons del: accepts.simps)
    next
      case (Some segs)
      with matchHere_DotStar_not_empty [of r xs] obtain seg segs' where "segs = seg # segs'"
        by (cases segs) auto
      with Some False 5 show ?thesis by (simp add: accepts_DotStar_Cons del: accepts.simps)
    qed
  qed
qed auto

lemma findFirst_accepts:
  "findFirst p s \<noteq> None \<longleftrightarrow> (\<exists>pre post. s = pre @ post \<and> accepts p post)"
proof (induction s)
  case Nil
  then show ?case using matchHere_accepts [of p "[]"] by simp
next
  case (Cons x xs)
  have "(\<exists>pre post. x # xs = pre @ post \<and> accepts p post)
          \<longleftrightarrow> accepts p (x # xs) \<or> (\<exists>pre post. xs = pre @ post \<and> accepts p post)"
    (is "?L \<longleftrightarrow> ?R")
  proof
    assume ?L
    then obtain pre post where pp: "x # xs = pre @ post" "accepts p post" by blast
    then show ?R by (cases pre) auto
  next
    assume ?R
    then show ?L
    proof
      assume "accepts p (x # xs)"
      then have "x # xs = [] @ (x # xs) \<and> accepts p (x # xs)" by simp
      then show ?L by blast
    next
      assume "\<exists>pre post. xs = pre @ post \<and> accepts p post"
      then obtain pre post where "xs = pre @ post" "accepts p post" by blast
      then have "x # xs = (x # pre) @ post \<and> accepts p post" by simp
      then show ?L by blast
    qed
  qed
  with Cons matchHere_accepts [of p "x # xs"] show ?case
    by (auto split: option.splits)
qed

lemma accepts_emailRegex:
  "accepts (items emailRegex) t \<longleftrightarrow>
     (\<exists>a e rest. t = [dquote] @ a @ ''<'' @ e @ ''>'' @ [dquote] @ rest
        \<and> newline \<notin> set a \<and> newline \<notin> set e)"
proof
  assume "accepts (items emailRegex) t"
  then obtain a e rest where
    "t = dquote # a @ CHR ''<'' # e @ CHR ''>'' # dquote # rest"
    "newline \<notin> set a" "newline \<notin> set e"
    by (auto simp: emailRegex_def)
  then show "\<exists>a e rest. t = [dquote] @ a @ ''<'' @ e @ ''>'' @ [dquote] @ rest
        \<and> newline \<notin> set a \<and> newline \<notin> set e"
    by auto
next
  assume "\<exists>a e rest. t = [dquote] @ a @ ''<'' @ e @ ''>'' @ [dquote] @ rest
        \<and> newline \<notin> set a \<and> newline \<notin> set e"
  then obtain a e rest where
    t: "t = dquote # a @ CHR ''<'' # e @ CHR ''>'' # dquote # rest"
    and a: "newline \<notin> set a" and e: "newline \<notin> set e"
    by auto
  have 1: "accepts [Lit CHR ''>'', Lit dquote] (CHR ''>'' # dquote # rest)"
    by simp
  have 2: "accepts [DotStar, Lit CHR ''>'', Lit dquote] (e @ CHR ''>'' # dquote # rest)"
    unfolding accepts.simps(3) using 1 e by blast
  have 3: "accepts [Lit CHR ''<'', DotStar, Lit CHR ''>'', Lit dquote]
             (CHR ''<'' # e @ CHR ''>'' # dquote # rest)"
    unfolding accepts.simps(2) using 2 by blast
  have 4: "accepts [DotStar, Lit CHR ''<'', DotStar, Lit CHR ''>'', Lit dquote]
             (a @ CHR ''<'' # e @ CHR ''>'' # dquote # rest)"
    unfolding accepts.simps(3) using 3 a by blast
  show "accepts (items emailRegex) t"
    unfolding emailRegex_def t using 4 by simp
qed

lemma accepts_keyIDRegex:
  "accepts (items keyIDRegex) t \<longleftrightarrow>
     (\<exists>k rest. t = ''ID '' @ k @ '','' @ rest \<and> newline \<notin> set k)"
proof
  assume "accepts (items keyIDRegex) t"
  then obtain k rest where "t = ''ID '' @ k @ CHR '','' # rest" "newline \<notin> set k"
    by (auto simp: keyIDRegex_def)
  then show "\<exists>k rest. t = ''ID '' @ k @ '','' @ rest \<and> newline \<notin> set k"
    by auto
next
  assume "\<exists>k rest. t = ''ID '' @ k @ '','' @ rest \<and> newline \<notin> set k"
  then obtain k rest where t: "t = ''ID '' @ k @ CHR '','' # rest" and k: "newline \<notin> set k"
    by auto
  have 1: "accepts [Lit CHR '',''] (CHR '','' # rest)"
    by simp
  have 2: "accepts [DotStar, Lit CHR '',''] (k @ CHR '','' # rest)"
    unfolding accepts.simps(3) using 1 k by blast
  show "accepts (items keyIDRegex) t"
    unfolding keyIDRegex_def t using 2 by simp
qed

lemma emailRegex_present:
  "findFirst (items emailRegex) d \<noteq> None \<longleftrightarrow> quotedNameEmailPresent d"
  unfolding findFirst_accepts quotedNameEmailPresent_def accepts_emailRegex
  by blast

lemma keyIDRegex_present:
  "findFirst (items keyIDRegex) d \<noteq> None \<longleftrightarrow> keyIdPatternPresent d"
  unfolding findFirst_accepts keyIdPatternPresent_def accepts_keyIDRegex
  by blast

lemma emailRegex_submatches:
  "goIndex (FindStringSubmatch emailRegex d) 1 = None \<longleftrightarrow> \<not> quotedNameEmailPresent d"
  "goIndex (FindStringSubmatch emailRegex d) 2 = None \<longleftrightarrow> \<not> quotedNameEmailPresent d"
  using emailRegex_present [of d]
  by (auto simp: FindStringSubmatch_def goIndex_def emailRegex_def split: option.splits)

lemma extractedKeyID_None: "extractedKeyID d = None \<longleftrightarrow> \<not> keyIdPatternPresent d"
  using keyIDRegex_present [of d]
  by (auto simp: extractedKeyID_def FindStringSubmatch_def goIndex_def keyIDRegex_def
        split: option.splits)

lemma parseDesc_cases:
  "parseDesc d =
     (if \<not> quotedNameEmailPresent d then Inl (Panic, [])
      else case extractedKeyID d of
             None \<Rightarrow> Inl (Panic, [])
           | Some keyID \<Rightarrow>
               if length keyID \<noteq> 8 \<and> length keyID \<noteq> 16
               then Inl (Exit, [LoggerFatalf ''Invalid keyID: %s'' [ArgString keyID]])
               else Inr (the (goIndex (strings_Split
                                (the (goIndex (FindStringSubmatch emailRegex d) 1)) '' <'') 0),
                         the (goIndex (FindStringSubmatch emailRegex d) 2), keyID))"
proof (cases "quotedNameEmailPresent d")
  case False
  then show ?thesis
    using emailRegex_submatches(1) [of d] by (simp add: parseDesc_def)
next
  case True
  then obtain m1 email where
    m: "goIndex (FindStringSubmatch emailRegex d) 1 = Some m1"
       "goIndex (FindStringSubmatch emailRegex d) 2 = Some email"
    using emailRegex_submatches [of d] by auto
  obtain name where n: "goIndex (strings_Split m1 '' <'') 0 = Some name"
    using Split_first by blast
  show ?thesis
    using True m n
    by (simp add: parseDesc_def extractedKeyID_def split: option.splits)
qed

text \<open>
  C3. Parsing a description fails if and only if the quoted \<^verbatim>\<open>"Name <email>"\<close> pattern
  is absent, or the \<^verbatim>\<open>ID <keyId>,\<close> pattern is absent, or the extracted key ID has a length
  other than 8 and 16. A failure is fatal: the callback panics (an absent pattern) or exits
  through \<^verbatim>\<open>logger.Fatalf\<close> (a wrong length) before it touches the keychain, the helper or
  the authenticator. With both patterns present, key IDs of length 7, 9, 15 and 17 fail
  and key IDs of length 8 and 16 are accepted.
\<close>

theorem parseDesc_fails_iff:
  "((\<exists>stopped. parseDesc d = Inl stopped) \<longleftrightarrow>
       \<not> quotedNameEmailPresent d \<or> \<not> keyIdPatternPresent d
       \<or> (\<exists>k. extractedKeyID d = Some k \<and> length k \<noteq> 8 \<and> length k \<noteq> 16))
   \<and> (\<forall>stopped t. parseDesc (Desc s) = Inl (stopped, t) \<longrightarrow>
         GetPIN fn env s w = (Stopped stopped, w, t) \<and> logOutput t = t)
   \<and> (\<forall>k. quotedNameEmailPresent d \<and> extractedKeyID d = Some k \<longrightarrow>
         (length k \<in> {7, 9, 15, 17} \<longrightarrow>
            parseDesc d = Inl (Exit, [LoggerFatalf ''Invalid keyID: %s'' [ArgString k]]))
         \<and> (length k \<in> {8, 16} \<longrightarrow> (\<exists>r. parseDesc d = Inr r)))"
proof -
  have a: "(\<exists>stopped. parseDesc d = Inl stopped) \<longleftrightarrow>
       \<not> quotedNameEmailPresent d \<or> \<not> keyIdPatternPresent d
       \<or> (\<exists>k. extractedKeyID d = Some k \<and> length k \<noteq> 8 \<and> length k \<noteq> 16)"
    using extractedKeyID_None [of d]
    by (cases "extractedKeyID d") (auto simp: parseDesc_cases [of d])
  have b: "GetPIN fn env s w = (Stopped stopped, w, t) \<and> logOutput t = t"
    if "parseDesc (Desc s) = Inl (stopped, t)" for stopped t
  proof -
    have "GetPIN fn env s w = (Stopped stopped, w, t)"
      using that by (simp add: GetPIN_def)
    moreover have "logOutput t = t"
      using that
      by (auto simp: parseDesc_cases [of "Desc s"] views split: if_splits option.splits)
    ultimately show ?thesis by simp
  qed
  have c: "(length k \<in> {7, 9, 15, 17} \<longrightarrow>
            parseDesc d = Inl (Exit, [LoggerFatalf ''Invalid keyID: %s'' [ArgString k]]))
         \<and> (length k \<in> {8, 16} \<longrightarrow> (\<exists>r. parseDesc d = Inr r))"
    if "quotedNameEmailPresent d \<and> extractedKeyID d = Some k" for k
    using that by (auto simp: parseDesc_cases [of d])
  from a b c show ?thesis by blast
qed

lemma parseDesc_boundary_examples:
  "parseDesc (descWithKeyID ''ABCDEFG'')
     = Inl (Exit, [LoggerFatalf ''Invalid keyID: %s'' [ArgString ''ABCDEFG'']])"
  "parseDesc (descWithKeyID ''ABCDEFGH'') = Inr (''Alice'', ''alice@example.com'', ''ABCDEFGH'')"
  "parseDesc (descWithKeyID ''ABCDEFGHI'')
     = Inl (Exit, [LoggerFatalf ''Invalid keyID: %s'' [ArgString ''ABCDEFGHI'']])"
  "parseDesc (descWithKeyID ''0123456789ABCDE'')
     = Inl (Exit, [LoggerFatalf ''Invalid keyID: %s'' [ArgString ''0123456789ABCDE'']])"
  "parseDesc (descWithKeyID ''0123456789ABCDEF'')
     = Inr (''Alice'', ''alice@example.com'', ''0123456789ABCDEF'')"
  "parseDesc (descWithKeyID ''0123456789ABCDEFG'')
     = Inl (Exit, [LoggerFatalf ''Invalid keyID: %s'' [ArgString ''0123456789ABCDEFG'']])"
  "parseDesc ''no quoted name, ID ABCDEFGH,'' = Inl (Panic, [])"
  "parseDesc ([dquote] @ ''Alice <alice@example.com>'' @ [dquote] @ '' and no key'')
     = Inl (Panic, [])"
  by code_simp+

theorem parseDesc_fails_iff_witness:
  "extractedKeyID (descWithKeyID ''ABCDEFG'') = Some ''ABCDEFG''
   \<and> (\<exists>stopped. parseDesc (descWithKeyID ''ABCDEFG'') = Inl stopped)
   \<and> GetPIN demoAuth demoEnv \<lparr>Desc = descWithKeyID ''ABCDEFG'', KeyInfo = ''n/CACHEID''\<rparr> emptyWorld
       = (Stopped Exit, emptyWorld, [LoggerFatalf ''Invalid keyID: %s'' [ArgString ''ABCDEFG'']])
   \<and> quotedNameEmailPresent (descWithKeyID ''ABCDEFGH'')
   \<and> extractedKeyID (descWithKeyID ''ABCDEFGH'') = Some ''ABCDEFGH''
   \<and> (\<exists>r. parseDesc (descWithKeyID ''ABCDEFGH'') = Inr r)"
proof -
  let ?s = "\<lparr>Desc = descWithKeyID ''ABCDEFG'', KeyInfo = ''n/CACHEID''\<rparr>"
  have k7: "extractedKeyID (descWithKeyID ''ABCDEFG'') = Some ''ABCDEFG''"
    by code_simp
  have l7: "length ''ABCDEFG'' \<noteq> 8 \<and> length ''ABCDEFG'' \<noteq> 16"
    by simp
  have f7: "\<exists>stopped. parseDesc (descWithKeyID ''ABCDEFG'') = Inl stopped"
    using parseDesc_fails_iff [of "descWithKeyID ''ABCDEFG''", THEN conjunct1] k7 l7 by blast
  have p7: "parseDesc (Desc ?s)
              = Inl (Exit, [LoggerFatalf ''Invalid keyID: %s'' [ArgString ''ABCDEFG'']])"
    by code_simp
  have g7: "GetPIN demoAuth demoEnv ?s emptyWorld
       = (Stopped Exit, emptyWorld, [LoggerFatalf ''Invalid keyID: %s'' [ArgString ''ABCDEFG'']])"
    using parseDesc_fails_iff [of _ ?s demoAuth demoEnv emptyWorld, THEN conjunct2, THEN conjunct1]
      p7 by blast
  have "findFirst (items emailRegex) (descWithKeyID ''ABCDEFGH'') \<noteq> None"
    by code_simp
  then have q8: "quotedNameEmailPresent (descWithKeyID ''ABCDEFGH'')"
    by (simp only: emailRegex_present)
  have k8: "extractedKeyID (descWithKeyID ''ABCDEFGH'') = Some ''ABCDEFGH''"
    by code_simp
  have l8: "length ''ABCDEFGH'' \<in> {8, 16}"
    by simp
  have r8: "\<exists>r. parseDesc (descWithKeyID ''ABCDEFGH'') = Inr r"
    using parseDesc_fails_iff [of "descWithKeyID ''ABCDEFGH''", THEN conjunct2, THEN conjunct2]
      q8 k8 l8 by blast
  from k7 f7 g7 q8 k8 r8 show ?thesis by blast
qed

section \<open>The first capture\<close>

lemma firstCapture_empty:
  assumes "askForPassword env s w1 = (([], err), w2, t2)"
  shows "firstCapture env s label w1 =
           (Stopped Exit, w2,
            t2 @ helperErrorLine err @
            [LoggerFatalf (''pinentry-mac didn'' @ [CHR 0x27] @ ''t return a password'') []])"
  using assms by (simp add: firstCapture_def emit_def logger_Fatalf_def)

lemma firstCapture_no_slash:
  assumes "askForPassword env s w1 = ((pin, err), w2, t2)" and "pin \<noteq> []"
    and "goIndex (strings_Split (KeyInfo s) ''/'') 1 = None"
  shows "firstCapture env s label w1 = (Stopped Panic, w2, t2 @ helperErrorLine err)"
  using assms by (simp add: firstCapture_def emit_def)

lemma firstCapture_recheck_error:
  assumes "askForPassword env s w1 = ((pin, err), w2, t2)" and "pin \<noteq> []"
    and "goIndex (strings_Split (KeyInfo s) ''/'') 1 = Some keyInfo"
    and "checkEntryInKeychain env label w2 = ((exists, Some e), w3, t3)"
  shows "firstCapture env s label w1 =
           (Stopped Exit, w3,
            t2 @ helperErrorLine err @ t3 @
            [LoggerFatalf ''error checking entry in keychain: %s'' [ArgError e]])"
  using assms by (simp add: firstCapture_def emit_def logger_Fatalf_def)

lemma firstCapture_race:
  assumes "askForPassword env s w1 = ((pin, err), w2, t2)" and "pin \<noteq> []"
    and "goIndex (strings_Split (KeyInfo s) ''/'') 1 = Some keyInfo"
    and "checkEntryInKeychain env label w2 = ((True, None), w3, t3)"
  shows "firstCapture env s label w1 =
           (Return pin None, w3,
            t2 @ helperErrorLine err @ t3 @
            [LoggerPrintf
               ''The keychain entry was created by pinentry-mac. Permission will be required on next run.''
               []])"
  using assms by (simp add: firstCapture_def emit_def logger_Printf_def)

lemma firstCapture_store:
  assumes "askForPassword env s w1 = ((pin, err), w2, t2)" and "pin \<noteq> []"
    and "goIndex (strings_Split (KeyInfo s) ''/'') 1 = Some keyInfo"
    and "checkEntryInKeychain env label w2 = ((False, None), w3, t3)"
    and "storePasswordInKeychain env label keyInfo pin w3 = (serr, w4, t4)"
  shows "firstCapture env s label w1 =
           (if serr = Some ErrorDuplicateItem then Stopped Exit else Return pin None, w4,
            t2 @ helperErrorLine err @ t3 @ t4 @
            (if serr = Some ErrorDuplicateItem
             then [LoggerFatalf ''Duplicated entry in the keychain'' []] else []))"
  using assms by (simp add: firstCapture_def emit_def logger_Fatalf_def)

lemma firstCapture_writes:
  assumes asked: "askForPassword env s w1 = ((pin, err), w2, t2)" and nonempty: "pin \<noteq> []"
    and fc: "firstCapture env s label w1 = (out, w', t)"
    and writes: "storeWrites t \<noteq> []"
  shows "\<exists>keyInfo w3 t3 serr rest.
           goIndex (strings_Split (KeyInfo s) ''/'') 1 = Some keyInfo
           \<and> checkEntryInKeychain env label w2 = ((False, None), w3, t3)
           \<and> keychain_AddItem env (passwordItem label keyInfo pin) w3 = (serr, w')
           \<and> t = t2 @ helperErrorLine err @ t3 @ EvAddItem (passwordItem label keyInfo pin) serr # rest
           \<and> storeWrites t = [EvAddItem (passwordItem label keyInfo pin) serr]"
proof -
  note r2 = askForPassword_views(2) [OF asked] helperErrorLine_views(2) [of err]
  show ?thesis
  proof (cases "goIndex (strings_Split (KeyInfo s) ''/'') 1")
    case None
    from firstCapture_no_slash [OF asked nonempty None] fc r2 writes
    show ?thesis by (auto simp: views)
  next
    case (Some keyInfo)
    obtain ex cerr w3 t3 where
      check: "checkEntryInKeychain env label w2 = ((ex, cerr), w3, t3)"
      by (metis prod_cases3 surj_pair)
    note r3 = checkEntryInKeychain_views(2) [OF check]
    show ?thesis
    proof (cases cerr)
      case (Some ce)
      with check have "checkEntryInKeychain env label w2 = ((ex, Some ce), w3, t3)"
        by simp
      from firstCapture_recheck_error [OF asked nonempty \<open>goIndex _ 1 = Some keyInfo\<close> this]
        fc r2 r3 writes
      show ?thesis by (auto simp: views)
    next
      case None
      show ?thesis
      proof (cases ex)
        case True
        with check None have "checkEntryInKeychain env label w2 = ((True, None), w3, t3)"
          by simp
        from firstCapture_race [OF asked nonempty \<open>goIndex _ 1 = Some keyInfo\<close> this]
          fc r2 r3 writes
        show ?thesis by (auto simp: views)
      next
        case False
        obtain serr w4 t4 where
          store: "storePasswordInKeychain env label keyInfo pin w3 = (serr, w4, t4)"
          using prod_cases3 by blast
        from False check None
        have c: "checkEntryInKeychain env label w2 = ((False, None), w3, t3)"
          by simp
        from store have add: "keychain_AddItem env (passwordItem label keyInfo pin) w3 = (serr, w4)"
          and t4: "t4 = [EvAddItem (passwordItem label keyInfo pin) serr]"
          unfolding storePasswordInKeychain_AddItem by simp_all
        from firstCapture_store [OF asked nonempty \<open>goIndex _ 1 = Some keyInfo\<close> c store]
          fc r2 r3 t4 c add \<open>goIndex _ 1 = Some keyInfo\<close>
        show ?thesis by (auto simp: views split: if_splits)
      qed
    qed
  qed
qed

text \<open>
  C2. In the first capture, once the helper has returned a non-empty PIN, every write to
  the keychain comes after the second existence check: if the trace has a write, it is the
  single call of \<^verbatim>\<open>keychain.AddItem\<close> that directly follows a second check which found the
  label absent, and the world the callback leaves is the one that call returned. For a
  correlation id with its second segment (the format \<^verbatim>\<open>x/cacheId\<close>) the second check is
  always made: if the entry exists now, the callback writes nothing and returns the PIN; if
  it is still absent, the callback calls \<^verbatim>\<open>keychain.AddItem\<close> exactly once, with the item
  made of the label, the second segment and the PIN, and when that call fails with
  \<^const>\<open>ErrorDuplicateItem\<close> the process exits.
\<close>

theorem GetPIN_rechecks_before_store:
  assumes parsed: "parseDesc (Desc s) = Inr (name, email, keyID)"
    and label: "label = keychainLabel name email keyID"
    and absent: "checkEntryInKeychain env label w = ((False, None), w1, t1)"
    and asked: "askForPassword env s w1 = ((pin, err), w2, t2)"
    and nonempty: "pin \<noteq> []"
    and run: "GetPIN fn env s w = (out, w', t)"
  shows "(storeWrites t \<noteq> [] \<longrightarrow>
            (\<exists>keyInfo w3 t3 serr rest.
               goIndex (strings_Split (KeyInfo s) ''/'') 1 = Some keyInfo
               \<and> checkEntryInKeychain env label w2 = ((False, None), w3, t3)
               \<and> keychain_AddItem env (passwordItem label keyInfo pin) w3 = (serr, w')
               \<and> t = t1 @ t2 @ helperErrorLine err @ t3 @
                       EvAddItem (passwordItem label keyInfo pin) serr # rest
               \<and> storeWrites t = [EvAddItem (passwordItem label keyInfo pin) serr]))
       \<and> (\<forall>keyInfo w3 t3.
            goIndex (strings_Split (KeyInfo s) ''/'') 1 = Some keyInfo
            \<and> checkEntryInKeychain env label w2 = ((True, None), w3, t3)
            \<longrightarrow> t = t1 @ t2 @ helperErrorLine err @ t3 @
                       [LoggerPrintf
                          ''The keychain entry was created by pinentry-mac. Permission will be required on next run.''
                          []]
                \<and> storeWrites t = [] \<and> out = Return pin None \<and> w' = w3)
       \<and> (\<forall>keyInfo w3 t3 serr w4.
            goIndex (strings_Split (KeyInfo s) ''/'') 1 = Some keyInfo
            \<and> checkEntryInKeychain env label w2 = ((False, None), w3, t3)
            \<and> keychain_AddItem env (passwordItem label keyInfo pin) w3 = (serr, w4)
            \<longrightarrow> (\<exists>rest. t = t1 @ t2 @ helperErrorLine err @ t3 @
                            EvAddItem (passwordItem label keyInfo pin) serr # rest)
                \<and> storeWrites t = [EvAddItem (passwordItem label keyInfo pin) serr]
                \<and> w' = w4
                \<and> (serr = Some ErrorDuplicateItem \<longrightarrow> out = Stopped Exit)
                \<and> (serr \<noteq> Some ErrorDuplicateItem \<longrightarrow> out = Return pin None))"
proof -
  from GetPIN_first_capture [OF parsed label absent run] obtain t' where
    fc: "firstCapture env s label w1 = (out, w', t')" and t: "t = t1 @ t'" by blast
  note w1 = checkEntryInKeychain_views(2) [OF absent]
  note w2 = askForPassword_views(2) [OF asked] helperErrorLine_views(2) [of err]
  have a: "\<exists>keyInfo w3 t3 serr rest.
               goIndex (strings_Split (KeyInfo s) ''/'') 1 = Some keyInfo
               \<and> checkEntryInKeychain env label w2 = ((False, None), w3, t3)
               \<and> keychain_AddItem env (passwordItem label keyInfo pin) w3 = (serr, w')
               \<and> t = t1 @ t2 @ helperErrorLine err @ t3 @
                       EvAddItem (passwordItem label keyInfo pin) serr # rest
               \<and> storeWrites t = [EvAddItem (passwordItem label keyInfo pin) serr]"
    if "storeWrites t \<noteq> []"
  proof -
    from that t w1 have "storeWrites t' \<noteq> []" by (simp add: views)
    from firstCapture_writes [OF asked nonempty fc this] t w1 show ?thesis
      by (auto simp: views)
  qed
  have b: "t = t1 @ t2 @ helperErrorLine err @ t3 @
                 [LoggerPrintf
                    ''The keychain entry was created by pinentry-mac. Permission will be required on next run.''
                    []]
           \<and> storeWrites t = [] \<and> out = Return pin None \<and> w' = w3"
    if "goIndex (strings_Split (KeyInfo s) ''/'') 1 = Some keyInfo"
      and c: "checkEntryInKeychain env label w2 = ((True, None), w3, t3)" for keyInfo w3 t3
    using firstCapture_race [OF asked nonempty that] fc t w1 w2 checkEntryInKeychain_views(2) [OF c]
    by (auto simp: views)
  have c: "(\<exists>rest. t = t1 @ t2 @ helperErrorLine err @ t3 @
                            EvAddItem (passwordItem label keyInfo pin) serr # rest)
                \<and> storeWrites t = [EvAddItem (passwordItem label keyInfo pin) serr]
                \<and> w' = w4
                \<and> (serr = Some ErrorDuplicateItem \<longrightarrow> out = Stopped Exit)
                \<and> (serr \<noteq> Some ErrorDuplicateItem \<longrightarrow> out = Return pin None)"
    if k: "goIndex (strings_Split (KeyInfo s) ''/'') 1 = Some keyInfo"
      and c: "checkEntryInKeychain env label w2 = ((False, None), w3, t3)"
      and add: "keychain_AddItem env (passwordItem label keyInfo pin) w3 = (serr, w4)"
    for keyInfo w3 t3 serr w4
  proof -
    from add have st: "storePasswordInKeychain env label keyInfo pin w3
                         = (serr, w4, [EvAddItem (passwordItem label keyInfo pin) serr])"
      unfolding storePasswordInKeychain_AddItem by simp
    from firstCapture_store [OF asked nonempty k c st] fc t w1 w2
      checkEntryInKeychain_views(2) [OF c]
    show ?thesis by (auto simp: views)
  qed
  from a b c show ?thesis by blast
qed

theorem GetPIN_rechecks_before_store_witness:
  "parseDesc (Desc aliceSettings) = Inr (''Alice'', ''alice@example.com'', ''A1B2C3D4'')
   \<and> aliceLabel = keychainLabel ''Alice'' ''alice@example.com'' ''A1B2C3D4''
   \<and> fst (checkEntryInKeychain demoEnv aliceLabel raceWorld) = (False, None)
   \<and> fst (askForPassword demoEnv aliceSettings raceWorld) = (''1234'', None)
   \<and> goIndex (strings_Split (KeyInfo aliceSettings) ''/'') 1 = Some ''CACHEID''
   \<and> fst (checkEntryInKeychain demoEnv aliceLabel
            (raceWorld\<lparr>stored := [aliceItem ''1234'']\<rparr>)) = (True, None)
   \<and> fst (GetPIN demoAuth demoEnv aliceSettings raceWorld) = Return ''1234'' None
   \<and> storeWrites (snd (snd (GetPIN demoAuth demoEnv aliceSettings raceWorld))) = []
   \<and> fst (checkEntryInKeychain demoEnv aliceLabel emptyWorld) = (False, None)
   \<and> fst (askForPassword demoEnv aliceSettings emptyWorld) = (''1234'', None)
   \<and> keychain_AddItem demoEnv (passwordItem aliceLabel ''CACHEID'' ''1234'') emptyWorld
       = (None, emptyWorld\<lparr>stored := [aliceItem ''1234'']\<rparr>)
   \<and> fst (GetPIN demoAuth demoEnv aliceSettings emptyWorld) = Return ''1234'' None
   \<and> fst (snd (GetPIN demoAuth demoEnv aliceSettings emptyWorld))
       = emptyWorld\<lparr>stored := [aliceItem ''1234'']\<rparr>
   \<and> storeWrites (snd (snd (GetPIN demoAuth demoEnv aliceSettings emptyWorld)))
       = [EvAddItem (passwordItem aliceLabel ''CACHEID'' ''1234'') None]"
proof -
  let ?w2 = "raceWorld\<lparr>stored := [aliceItem ''1234'']\<rparr>"
  have h1: "parseDesc (Desc aliceSettings) = Inr (''Alice'', ''alice@example.com'', ''A1B2C3D4'')"
    by code_simp
  have h2: "aliceLabel = keychainLabel ''Alice'' ''alice@example.com'' ''A1B2C3D4''"
    by code_simp
  have h5: "''1234'' \<noteq> []" by simp
  have h6: "goIndex (strings_Split (KeyInfo aliceSettings) ''/'') 1 = Some ''CACHEID''"
    by code_simp
  txt \<open>The helper stores the entry itself.\<close>
  have "fst (checkEntryInKeychain demoEnv aliceLabel raceWorld) = (False, None)"
    and "fst (snd (checkEntryInKeychain demoEnv aliceLabel raceWorld)) = raceWorld"
    by code_simp+
  from run_tripleI [OF this] obtain t1 where
    h3: "checkEntryInKeychain demoEnv aliceLabel raceWorld = ((False, None), raceWorld, t1)" ..
  have "fst (askForPassword demoEnv aliceSettings raceWorld) = (''1234'', None)"
    and "fst (snd (askForPassword demoEnv aliceSettings raceWorld)) = ?w2"
    by code_simp+
  from run_tripleI [OF this] obtain t2 where
    h4: "askForPassword demoEnv aliceSettings raceWorld = ((''1234'', None), ?w2, t2)" ..
  have "fst (checkEntryInKeychain demoEnv aliceLabel ?w2) = (True, None)"
    and "fst (snd (checkEntryInKeychain demoEnv aliceLabel ?w2)) = ?w2"
    by code_simp+
  from run_tripleI [OF this] obtain t3 where
    h7: "checkEntryInKeychain demoEnv aliceLabel ?w2 = ((True, None), ?w2, t3)" ..
  obtain out w' t where h9: "GetPIN demoAuth demoEnv aliceSettings raceWorld = (out, w', t)"
    using prod_cases3 by blast
  from GetPIN_rechecks_before_store [OF h1 h2 h3 h4 h5 h9] h6 h7
  have race: "storeWrites t = [] \<and> out = Return ''1234'' None" by blast
  txt \<open>The helper stores nothing, and the callback adds its own item.\<close>
  have "fst (checkEntryInKeychain demoEnv aliceLabel emptyWorld) = (False, None)"
    and "fst (snd (checkEntryInKeychain demoEnv aliceLabel emptyWorld)) = emptyWorld"
    by code_simp+
  from run_tripleI [OF this] obtain u1 where
    k3: "checkEntryInKeychain demoEnv aliceLabel emptyWorld = ((False, None), emptyWorld, u1)" ..
  have "fst (askForPassword demoEnv aliceSettings emptyWorld) = (''1234'', None)"
    and "fst (snd (askForPassword demoEnv aliceSettings emptyWorld)) = emptyWorld"
    by code_simp+
  from run_tripleI [OF this] obtain u2 where
    k4: "askForPassword demoEnv aliceSettings emptyWorld = ((''1234'', None), emptyWorld, u2)" ..
  have k7: "keychain_AddItem demoEnv (passwordItem aliceLabel ''CACHEID'' ''1234'') emptyWorld
              = (None, emptyWorld\<lparr>stored := [aliceItem ''1234'']\<rparr>)"
    by code_simp
  obtain out2 w2' u where k9: "GetPIN demoAuth demoEnv aliceSettings emptyWorld = (out2, w2', u)"
    using prod_cases3 by blast
  from GetPIN_rechecks_before_store [OF h1 h2 k3 k4 h5 k9] h6 k3 k7
  have own: "storeWrites u = [EvAddItem (passwordItem aliceLabel ''CACHEID'' ''1234'') None]
             \<and> out2 = Return ''1234'' None
             \<and> w2' = emptyWorld\<lparr>stored := [aliceItem ''1234'']\<rparr>"
    by blast
  show ?thesis
    unfolding h3 h4 h7 h9 k3 k4 k9 using h1 h2 h6 k7 race own by simp
qed

lemma firstCapture_nonempty:
  assumes asked: "askForPassword env s w1 = ((pin, err), w2, t2)" and nonempty: "pin \<noteq> []"
    and fc: "firstCapture env s label w1 = (out, w', t)"
  shows "payloadReads t = []" and "out = Return v e \<Longrightarrow> v = pin \<and> e = None"
proof -
  note r2 = askForPassword_views(1) [OF asked] helperErrorLine_views(1) [of err]
  have "payloadReads t = [] \<and> (out = Return v e \<longrightarrow> v = pin \<and> e = None)"
  proof (cases "goIndex (strings_Split (KeyInfo s) ''/'') 1")
    case None
    from firstCapture_no_slash [OF asked nonempty None] fc r2
    show ?thesis by (auto simp: views)
  next
    case (Some keyInfo)
    obtain ex cerr w3 t3 where
      check: "checkEntryInKeychain env label w2 = ((ex, cerr), w3, t3)"
      by (metis prod_cases3 surj_pair)
    note r3 = checkEntryInKeychain_views(1) [OF check]
    show ?thesis
    proof (cases cerr)
      case (Some ce)
      with check have "checkEntryInKeychain env label w2 = ((ex, Some ce), w3, t3)"
        by simp
      from firstCapture_recheck_error [OF asked nonempty \<open>goIndex _ 1 = Some keyInfo\<close> this]
        fc r2 r3
      show ?thesis by (auto simp: views)
    next
      case None
      show ?thesis
      proof (cases ex)
        case True
        with check None have "checkEntryInKeychain env label w2 = ((True, None), w3, t3)"
          by simp
        from firstCapture_race [OF asked nonempty \<open>goIndex _ 1 = Some keyInfo\<close> this] fc r2 r3
        show ?thesis by (auto simp: views)
      next
        case False
        obtain serr w4 t4 where
          store: "storePasswordInKeychain env label keyInfo pin w3 = (serr, w4, t4)"
          using prod_cases3 by blast
        from False check None
        have "checkEntryInKeychain env label w2 = ((False, None), w3, t3)"
          by simp
        from firstCapture_store [OF asked nonempty \<open>goIndex _ 1 = Some keyInfo\<close> this store]
          fc r2 r3 storePasswordInKeychain_trace [OF store]
        show ?thesis by (auto simp: views split: if_splits)
      qed
    qed
  qed
  then show "payloadReads t = []" and "out = Return v e \<Longrightarrow> v = pin \<and> e = None"
    by blast+
qed

text \<open>
  C4. In the first capture, for every non-empty PIN that the helper returns, the trace of
  the call has no read of stored data, and whenever the callback returns, it returns
  exactly that PIN with a nil error. It does return it both when the second check finds
  the entry (the helper stored it) and when the callback's own item was added.
\<close>

theorem GetPIN_returns_captured_pin:
  assumes parsed: "parseDesc (Desc s) = Inr (name, email, keyID)"
    and label: "label = keychainLabel name email keyID"
    and absent: "checkEntryInKeychain env label w = ((False, None), w1, t1)"
    and asked: "askForPassword env s w1 = ((pin, err), w2, t2)"
    and nonempty: "pin \<noteq> []"
    and run: "GetPIN fn env s w = (out, w', t)"
  shows "payloadReads t = []
       \<and> (\<forall>v e. out = Return v e \<longrightarrow> v = pin \<and> e = None)
       \<and> (\<forall>keyInfo w3 t3.
            goIndex (strings_Split (KeyInfo s) ''/'') 1 = Some keyInfo
            \<and> checkEntryInKeychain env label w2 = ((True, None), w3, t3)
            \<longrightarrow> out = Return pin None)
       \<and> (\<forall>keyInfo w3 t3 w4 t4.
            goIndex (strings_Split (KeyInfo s) ''/'') 1 = Some keyInfo
            \<and> checkEntryInKeychain env label w2 = ((False, None), w3, t3)
            \<and> storePasswordInKeychain env label keyInfo pin w3 = (None, w4, t4)
            \<longrightarrow> out = Return pin None)"
proof -
  have g: "GetPIN fn env s w = emit t1 (firstCapture env s label w1)"
    using GetPIN_absent [OF parsed absent [unfolded label]] label by simp
  from run obtain t' where fc: "firstCapture env s label w1 = (out, w', t')" and t: "t = t1 @ t'"
    unfolding g emit_eq by blast
  have a: "payloadReads t = []"
    using firstCapture_nonempty(1) [OF asked nonempty fc] checkEntryInKeychain_views(1) [OF absent] t
    by (simp add: views)
  have b: "\<forall>v e. out = Return v e \<longrightarrow> v = pin \<and> e = None"
    using firstCapture_nonempty(2) [OF asked nonempty fc] by blast
  have c: "out = Return pin None"
    if "goIndex (strings_Split (KeyInfo s) ''/'') 1 = Some keyInfo"
      and "checkEntryInKeychain env label w2 = ((True, None), w3, t3)" for keyInfo w3 t3
    using firstCapture_race [OF asked nonempty that] fc by simp
  have d: "out = Return pin None"
    if "goIndex (strings_Split (KeyInfo s) ''/'') 1 = Some keyInfo"
      and "checkEntryInKeychain env label w2 = ((False, None), w3, t3)"
      and "storePasswordInKeychain env label keyInfo pin w3 = (None, w4, t4)"
    for keyInfo w3 t3 w4 t4
    using firstCapture_store [OF asked nonempty that] fc by simp
  from a b c d show ?thesis by blast
qed

theorem GetPIN_returns_captured_pin_witness:
  "parseDesc (Desc aliceSettings) = Inr (''Alice'', ''alice@example.com'', ''A1B2C3D4'')
   \<and> aliceLabel = keychainLabel ''Alice'' ''alice@example.com'' ''A1B2C3D4''
   \<and> fst (checkEntryInKeychain demoEnv aliceLabel emptyWorld) = (False, None)
   \<and> fst (askForPassword demoEnv aliceSettings emptyWorld) = (''1234'', None)
   \<and> goIndex (strings_Split (KeyInfo aliceSettings) ''/'') 1 = Some ''CACHEID''
   \<and> fst (storePasswordInKeychain demoEnv aliceLabel ''CACHEID'' ''1234'' emptyWorld) = None
   \<and> fst (GetPIN demoAuth demoEnv aliceSettings emptyWorld) = Return ''1234'' None
   \<and> payloadReads (snd (snd (GetPIN demoAuth demoEnv aliceSettings emptyWorld))) = []"
proof -
  have h1: "parseDesc (Desc aliceSettings) = Inr (''Alice'', ''alice@example.com'', ''A1B2C3D4'')"
    by code_simp
  have h2: "aliceLabel = keychainLabel ''Alice'' ''alice@example.com'' ''A1B2C3D4''"
    by code_simp
  have "fst (checkEntryInKeychain demoEnv aliceLabel emptyWorld) = (False, None)"
    and "fst (snd (checkEntryInKeychain demoEnv aliceLabel emptyWorld)) = emptyWorld"
    by code_simp+
  from run_tripleI [OF this] obtain t1 where
    h3: "checkEntryInKeychain demoEnv aliceLabel emptyWorld = ((False, None), emptyWorld, t1)" ..
  have "fst (askForPassword demoEnv aliceSettings emptyWorld) = (''1234'', None)"
    and "fst (snd (askForPassword demoEnv aliceSettings emptyWorld)) = emptyWorld"
    by code_simp+
  from run_tripleI [OF this] obtain t2 where
    h4: "askForPassword demoEnv aliceSettings emptyWorld = ((''1234'', None), emptyWorld, t2)" ..
  have h5: "''1234'' \<noteq> []" by simp
  have h6: "goIndex (strings_Split (KeyInfo aliceSettings) ''/'') 1 = Some ''CACHEID''"
    by code_simp
  have "fst (storePasswordInKeychain demoEnv aliceLabel ''CACHEID'' ''1234'' emptyWorld) = None"
    and "fst (snd (storePasswordInKeychain demoEnv aliceLabel ''CACHEID'' ''1234'' emptyWorld))
           = emptyWorld\<lparr>stored := [aliceItem ''1234'']\<rparr>"
    by code_simp+
  from run_tripleI [OF this] obtain t4 where
    h7: "storePasswordInKeychain demoEnv aliceLabel ''CACHEID'' ''1234'' emptyWorld
           = (None, emptyWorld\<lparr>stored := [aliceItem ''1234'']\<rparr>, t4)" ..
  obtain out w' t where h9: "GetPIN demoAuth demoEnv aliceSettings emptyWorld = (out, w', t)"
    using prod_cases3 by blast
  from GetPIN_returns_captured_pin [OF h1 h2 h3 h4 h5 h9] h6 h3 h7
  have r: "payloadReads t = [] \<and> out = Return ''1234'' None" by blast
  show ?thesis
    unfolding h3 h4 h7 h9 using h1 h2 h6 r by simp
qed

section \<open>An empty capture\<close>

text \<open>
  C6, as the code has it. When the helper returns no bytes in the first capture, the
  callback logs \<^verbatim>\<open>pinentry-mac didn't return a password\<close> with \<^verbatim>\<open>logger.Fatalf\<close> and
  the process exits: nothing is returned to the caller and nothing is written to the
  keychain.
\<close>

theorem GetPIN_empty_capture_exits:
  assumes parsed: "parseDesc (Desc s) = Inr (name, email, keyID)"
    and label: "label = keychainLabel name email keyID"
    and absent: "checkEntryInKeychain env label w = ((False, None), w1, t1)"
    and asked: "askForPassword env s w1 = (([], err), w2, t2)"
  shows "GetPIN fn env s w =
           (Stopped Exit, w2,
            t1 @ t2 @ helperErrorLine err @
            [LoggerFatalf (''pinentry-mac didn'' @ [CHR 0x27] @ ''t return a password'') []])
         \<and> storeWrites (snd (snd (GetPIN fn env s w))) = []"
proof -
  have g: "GetPIN fn env s w = emit t1 (firstCapture env s label w1)"
    using GetPIN_absent [OF parsed absent [unfolded label]] label by simp
  show ?thesis
    unfolding g firstCapture_empty [OF asked]
    using checkEntryInKeychain_views(2) [OF absent] askForPassword_views(2) [OF asked]
      helperErrorLine_views(2) [of err]
    by (simp add: emit_def views)
qed

theorem GetPIN_empty_capture_exits_witness:
  "parseDesc (Desc aliceSettings) = Inr (''Alice'', ''alice@example.com'', ''A1B2C3D4'')
   \<and> aliceLabel = keychainLabel ''Alice'' ''alice@example.com'' ''A1B2C3D4''
   \<and> fst (checkEntryInKeychain demoEnv aliceLabel cancelWorld) = (False, None)
   \<and> fst (askForPassword demoEnv aliceSettings cancelWorld) = ([], None)
   \<and> fst (GetPIN demoAuth demoEnv aliceSettings cancelWorld) = Stopped Exit
   \<and> storeWrites (snd (snd (GetPIN demoAuth demoEnv aliceSettings cancelWorld))) = []"
proof -
  have h1: "parseDesc (Desc aliceSettings) = Inr (''Alice'', ''alice@example.com'', ''A1B2C3D4'')"
    by code_simp
  have h2: "aliceLabel = keychainLabel ''Alice'' ''alice@example.com'' ''A1B2C3D4''"
    by code_simp
  have "fst (checkEntryInKeychain demoEnv aliceLabel cancelWorld) = (False, None)"
    and "fst (snd (checkEntryInKeychain demoEnv aliceLabel cancelWorld)) = cancelWorld"
    by code_simp+
  from run_tripleI [OF this] obtain t1 where
    h3: "checkEntryInKeychain demoEnv aliceLabel cancelWorld = ((False, None), cancelWorld, t1)" ..
  have "fst (askForPassword demoEnv aliceSettings cancelWorld) = ([], None)"
    and "fst (snd (askForPassword demoEnv aliceSettings cancelWorld)) = cancelWorld"
    by code_simp+
  from run_tripleI [OF this] obtain t2 where
    h4: "askForPassword demoEnv aliceSettings cancelWorld = (([], None), cancelWorld, t2)" ..
  note inst = GetPIN_empty_capture_exits [OF h1 h2 h3 h4, of demoAuth]
  have r: "fst (GetPIN demoAuth demoEnv aliceSettings cancelWorld) = Stopped Exit
           \<and> storeWrites (snd (snd (GetPIN demoAuth demoEnv aliceSettings cancelWorld))) = []"
    using inst [THEN conjunct1] inst [THEN conjunct2] by (simp only: fst_conv simp_thms)
  show ?thesis
    unfolding h3 h4 using h1 h2 r by simp
qed

theorem GetPIN_empty_capture_counterexample:
  "fst (askForPassword demoEnv aliceSettings cancelWorld) = ([], None)
   \<and> fst (GetPIN demoAuth demoEnv aliceSettings cancelWorld) = Stopped Exit
   \<and> fst (GetPIN demoAuth demoEnv aliceSettings cancelWorld) \<noteq> Return [] None"
  by code_simp

section \<open>The account of a new entry\<close>

lemma HasPrefix_slash: "HasPrefix (c # cs) ''/'' \<longleftrightarrow> c = CHR ''/''"
  by (simp add: HasPrefix_def)

lemma splitAcc_slash_first:
  "hd (splitAcc ''/'' acc s) = acc @ takeWhile (\<lambda>c. c \<noteq> CHR ''/'') s"
  by (induction s arbitrary: acc) (auto simp: HasPrefix_slash)

lemma splitAcc_slash_before:
  "CHR ''/'' \<notin> set x \<Longrightarrow>
     splitAcc ''/'' acc (x @ CHR ''/'' # rest) = (acc @ x) # splitAcc ''/'' [] rest"
  by (induction x arbitrary: acc) (auto simp: HasPrefix_slash)

lemma Split_second_segment:
  assumes "CHR ''/'' \<notin> set x"
  shows "goIndex (strings_Split (x @ CHR ''/'' # rest) ''/'') 1
           = Some (takeWhile (\<lambda>c. c \<noteq> CHR ''/'') rest)"
proof -
  obtain y ys where ys: "splitAcc ''/'' [] rest = y # ys"
    using splitAcc_nonempty by (cases "splitAcc ''/'' [] rest") auto
  with splitAcc_slash_first [of "[]" rest] have "y = takeWhile (\<lambda>c. c \<noteq> CHR ''/'') rest"
    by simp
  with ys splitAcc_slash_before [OF assms, of "[]" rest] show ?thesis
    by (simp add: strings_Split_def goIndex_def)
qed

lemma afterFirstSlash_eq:
  "CHR ''/'' \<notin> set x \<Longrightarrow> afterFirstSlash (x @ CHR ''/'' # rest) = rest"
  by (induction x) (auto simp: afterFirstSlash_def)

lemma Account_passwordItem: "Account (passwordItem label keyInfo pin) = Some keyInfo"
  by (simp add: passwordItem_def NewItem_def)

lemma GetPIN_store_path:
  assumes parsed: "parseDesc (Desc s) = Inr (name, email, keyID)"
    and label: "label = keychainLabel name email keyID"
    and absent: "checkEntryInKeychain env label w = ((False, None), w1, t1)"
    and asked: "askForPassword env s w1 = ((pin, err), w2, t2)"
    and nonempty: "pin \<noteq> []"
    and kinfo: "goIndex (strings_Split (KeyInfo s) ''/'') 1 = Some keyInfo"
    and recheck: "checkEntryInKeychain env label w2 = ((False, None), w3, t3)"
    and store: "storePasswordInKeychain env label keyInfo pin w3 = (serr, w4, t4)"
  shows "GetPIN fn env s w =
           (if serr = Some ErrorDuplicateItem then Stopped Exit else Return pin None, w4,
            t1 @ t2 @ helperErrorLine err @ t3 @ t4 @
            (if serr = Some ErrorDuplicateItem
             then [LoggerFatalf ''Duplicated entry in the keychain'' []] else []))"
    and "storeWrites (snd (snd (GetPIN fn env s w))) =
           [EvAddItem (passwordItem label keyInfo pin) serr]"
proof -
  have g: "GetPIN fn env s w = emit t1 (firstCapture env s label w1)"
    using GetPIN_absent [OF parsed absent [unfolded label]] label by simp
  show run: "GetPIN fn env s w =
           (if serr = Some ErrorDuplicateItem then Stopped Exit else Return pin None, w4,
            t1 @ t2 @ helperErrorLine err @ t3 @ t4 @
            (if serr = Some ErrorDuplicateItem
             then [LoggerFatalf ''Duplicated entry in the keychain'' []] else []))"
    unfolding g firstCapture_store [OF asked nonempty kinfo recheck store]
    by (simp add: emit_def)
  show "storeWrites (snd (snd (GetPIN fn env s w))) =
           [EvAddItem (passwordItem label keyInfo pin) serr]"
    unfolding run
    using checkEntryInKeychain_views(2) [OF absent] askForPassword_views(2) [OF asked]
      checkEntryInKeychain_views(2) [OF recheck] helperErrorLine_views(2) [of err]
      storePasswordInKeychain_trace [OF store]
    by (simp add: views)
qed

lemma Split_one_slash:
  assumes "CHR ''/'' \<notin> set x" and "CHR ''/'' \<notin> set cacheId"
  shows "goIndex (strings_Split (x @ CHR ''/'' # cacheId) ''/'') 1 = Some cacheId"
    and "afterFirstSlash (x @ CHR ''/'' # cacheId) = cacheId"
proof -
  from assms(2) have "takeWhile (\<lambda>c. c \<noteq> CHR ''/'') cacheId = cacheId"
    by (auto simp: takeWhile_eq_all_conv)
  with Split_second_segment [OF assms(1), of cacheId]
  show "goIndex (strings_Split (x @ CHR ''/'' # cacheId) ''/'') 1 = Some cacheId"
    by simp
  show "afterFirstSlash (x @ CHR ''/'' # cacheId) = cacheId"
    by (rule afterFirstSlash_eq [OF assms(1)])
qed

text \<open>
  C7. For every correlation id of the form \<^verbatim>\<open>x/cacheId\<close> (two segments, one slash), the
  substring after the first slash is \<open>cacheId\<close>, and every item that the callback adds to the
  keychain has that substring as its account. When the second check finds the label absent
  the callback does add one: it calls \<^verbatim>\<open>keychain.AddItem\<close> once, on an item with that
  account, and leaves the world that call returned.
\<close>

theorem GetPIN_account_after_first_slash:
  assumes parsed: "parseDesc (Desc s) = Inr (name, email, keyID)"
    and label: "label = keychainLabel name email keyID"
    and absent: "checkEntryInKeychain env label w = ((False, None), w1, t1)"
    and asked: "askForPassword env s w1 = ((pin, err), w2, t2)"
    and nonempty: "pin \<noteq> []"
    and form: "KeyInfo s = x @ CHR ''/'' # cacheId" "CHR ''/'' \<notin> set x"
              "CHR ''/'' \<notin> set cacheId"
    and run: "GetPIN fn env s w = (out, w', t)"
  shows "afterFirstSlash (KeyInfo s) = cacheId
       \<and> (\<forall>item serr. EvAddItem item serr \<in> set t \<longrightarrow>
             Account item = Some (afterFirstSlash (KeyInfo s)))
       \<and> (\<forall>w3 t3. checkEntryInKeychain env label w2 = ((False, None), w3, t3) \<longrightarrow>
             (\<exists>item serr.
                keychain_AddItem env item w3 = (serr, w')
                \<and> storeWrites t = [EvAddItem item serr]
                \<and> Account item = Some (afterFirstSlash (KeyInfo s))
                \<and> Label item = Some label \<and> Data item = Some pin))"
proof -
  from GetPIN_first_capture [OF parsed label absent run] obtain t' where
    fc: "firstCapture env s label w1 = (out, w', t')" and t: "t = t1 @ t'" by blast
  note w1 = checkEntryInKeychain_views(2) [OF absent]
  note w2 = askForPassword_views(2) [OF asked] helperErrorLine_views(2) [of err]
  have kinfo: "goIndex (strings_Split (KeyInfo s) ''/'') 1 = Some cacheId"
    and after: "afterFirstSlash (KeyInfo s) = cacheId"
    using Split_one_slash [OF form(2,3)] form(1) by simp_all
  have a: "Account item = Some (afterFirstSlash (KeyInfo s))"
    if ev: "EvAddItem item serr \<in> set t" for item serr
  proof -
    from ev have "EvAddItem item serr \<in> set (storeWrites t)"
      by (simp add: storeWrites_def)
    moreover from this have "storeWrites t' \<noteq> []"
      using t w1 by (auto simp: views)
    from firstCapture_writes [OF asked nonempty fc this] kinfo t w1
    have "\<exists>serr'. storeWrites t = [EvAddItem (passwordItem label cacheId pin) serr']"
      by (auto simp: views)
    ultimately have "item = passwordItem label cacheId pin"
      by auto
    with after show ?thesis
      by (simp add: Account_passwordItem)
  qed
  have b: "\<exists>item serr.
                keychain_AddItem env item w3 = (serr, w')
                \<and> storeWrites t = [EvAddItem item serr]
                \<and> Account item = Some (afterFirstSlash (KeyInfo s))
                \<and> Label item = Some label \<and> Data item = Some pin"
    if c: "checkEntryInKeychain env label w2 = ((False, None), w3, t3)" for w3 t3
  proof -
    let ?item = "passwordItem label cacheId pin"
    obtain serr w4 where add: "keychain_AddItem env ?item w3 = (serr, w4)"
      by (cases "keychain_AddItem env ?item w3") blast
    then have st: "storePasswordInKeychain env label cacheId pin w3
                     = (serr, w4, [EvAddItem ?item serr])"
      unfolding storePasswordInKeychain_AddItem by simp
    from firstCapture_store [OF asked nonempty kinfo c st] fc t w1 w2
      checkEntryInKeychain_views(2) [OF c]
    have "w' = w4" and "storeWrites t = [EvAddItem ?item serr]"
      by (auto simp: views)
    with add after show ?thesis
      by (intro exI [of _ ?item] exI [of _ serr]) (simp add: passwordItem_def NewItem_def)
  qed
  from after a b show ?thesis by blast
qed

theorem GetPIN_account_after_first_slash_witness:
  "parseDesc (Desc aliceSettings) = Inr (''Alice'', ''alice@example.com'', ''A1B2C3D4'')
   \<and> aliceLabel = keychainLabel ''Alice'' ''alice@example.com'' ''A1B2C3D4''
   \<and> fst (checkEntryInKeychain demoEnv aliceLabel emptyWorld) = (False, None)
   \<and> fst (askForPassword demoEnv aliceSettings emptyWorld) = (''1234'', None)
   \<and> KeyInfo aliceSettings = ''n'' @ CHR ''/'' # ''CACHEID''
   \<and> afterFirstSlash (KeyInfo aliceSettings) = ''CACHEID''
   \<and> (\<exists>item serr.
         keychain_AddItem demoEnv item emptyWorld
           = (serr, fst (snd (GetPIN demoAuth demoEnv aliceSettings emptyWorld)))
         \<and> storeWrites (snd (snd (GetPIN demoAuth demoEnv aliceSettings emptyWorld)))
             = [EvAddItem item serr]
         \<and> Account item = Some ''CACHEID'')
   \<and> fst (snd (GetPIN demoAuth demoEnv aliceSettings emptyWorld))
       = emptyWorld\<lparr>stored := [aliceItem ''1234'']\<rparr>"
proof -
  have h1: "parseDesc (Desc aliceSettings) = Inr (''Alice'', ''alice@example.com'', ''A1B2C3D4'')"
    by code_simp
  have h2: "aliceLabel = keychainLabel ''Alice'' ''alice@example.com'' ''A1B2C3D4''"
    by code_simp
  have "fst (checkEntryInKeychain demoEnv aliceLabel emptyWorld) = (False, None)"
    and "fst (snd (checkEntryInKeychain demoEnv aliceLabel emptyWorld)) = emptyWorld"
    by code_simp+
  from run_tripleI [OF this] obtain t1 where
    h3: "checkEntryInKeychain demoEnv aliceLabel emptyWorld = ((False, None), emptyWorld, t1)" ..
  have "fst (askForPassword demoEnv aliceSettings emptyWorld) = (''1234'', None)"
    and "fst (snd (askForPassword demoEnv aliceSettings emptyWorld)) = emptyWorld"
    by code_simp+
  from run_tripleI [OF this] obtain t2 where
    h4: "askForPassword demoEnv aliceSettings emptyWorld = ((''1234'', None), emptyWorld, t2)" ..
  have h5: "''1234'' \<noteq> []" by simp
  have h6: "KeyInfo aliceSettings = ''n'' @ CHR ''/'' # ''CACHEID''"
    by code_simp
  have h7: "CHR ''/'' \<notin> set ''n''" and h8: "CHR ''/'' \<notin> set ''CACHEID''" by simp_all
  obtain out w' t where h9: "GetPIN demoAuth demoEnv aliceSettings emptyWorld = (out, w', t)"
    using prod_cases3 by blast
  have w: "fst (snd (GetPIN demoAuth demoEnv aliceSettings emptyWorld))
             = emptyWorld\<lparr>stored := [aliceItem ''1234'']\<rparr>"
    by code_simp
  note inst = GetPIN_account_after_first_slash [OF h1 h2 h3 h4 h5 h6 h7 h8 h9]
  from inst have r1: "afterFirstSlash (KeyInfo aliceSettings) = ''CACHEID''"
    by blast
  from inst h3 r1
  have r2: "\<exists>item serr. keychain_AddItem demoEnv item emptyWorld = (serr, w')
              \<and> storeWrites t = [EvAddItem item serr] \<and> Account item = Some ''CACHEID''"
    by auto
  show ?thesis
    unfolding h3 h4 using h1 h2 h6 r1 r2 w h9 by simp
qed

text \<open>
  A correlation id with a third segment is outside that form. There the callback takes the
  second segment only: for \<^verbatim>\<open>n/abc/def\<close> the account of the new entry is \<^verbatim>\<open>abc\<close>.
\<close>

lemma GetPIN_account_three_segments:
  "storeWrites (snd (snd (GetPIN demoAuth demoEnv (aliceSettings\<lparr>KeyInfo := ''n/abc/def''\<rparr>)
                            emptyWorld)))
     = [EvAddItem (passwordItem aliceLabel ''abc'' ''1234'') None]"
  by code_simp

lemma GetPIN_no_slash_panics:
  assumes parsed: "parseDesc (Desc s) = Inr (name, email, keyID)"
    and label: "label = keychainLabel name email keyID"
    and absent: "checkEntryInKeychain env label w = ((False, None), w1, t1)"
    and asked: "askForPassword env s w1 = ((pin, err), w2, t2)"
    and nonempty: "pin \<noteq> []"
    and no_slash: "CHR ''/'' \<notin> set (KeyInfo s)"
  shows "GetPIN fn env s w = (Stopped Panic, w2, t1 @ t2 @ helperErrorLine err)"
proof -
  have "splitAcc ''/'' acc k = [acc @ k]" if "CHR ''/'' \<notin> set k" for acc k
    using that by (induction k arbitrary: acc) (auto simp: HasPrefix_slash)
  with no_slash have "goIndex (strings_Split (KeyInfo s) ''/'') 1 = None"
    by (simp add: strings_Split_def goIndex_def)
  from firstCapture_no_slash [OF asked nonempty this, of label]
    GetPIN_absent [OF parsed absent [unfolded label], of fn] label
  show ?thesis by (simp add: emit_def)
qed

section \<open>A failed write is ignored\<close>

lemma firstCapture_starts_helper:
  "\<exists>r rest. snd (snd (firstCapture env s label w)) = EvPinentryNew r # rest"
  by (auto simp: firstCapture_def askForPassword_def call_def emit_def
        split: prod.splits option.splits)

text \<open>
  C10. In the first capture, when adding the new item fails with an error other than
  \<^const>\<open>ErrorDuplicateItem\<close>, the callback still returns the captured PIN with a nil
  error, and the failed call is the last event of the trace: no line is logged for it. The
  world is as the failed call left it; if the label is absent there (no record was stored),
  the next request for the same description runs the first capture again and starts the
  helper again.
\<close>

theorem GetPIN_ignores_store_error:
  assumes parsed: "parseDesc (Desc s) = Inr (name, email, keyID)"
    and label: "label = keychainLabel name email keyID"
    and absent: "checkEntryInKeychain env label w = ((False, None), w1, t1)"
    and asked: "askForPassword env s w1 = ((pin, err), w2, t2)"
    and nonempty: "pin \<noteq> []"
    and kinfo: "goIndex (strings_Split (KeyInfo s) ''/'') 1 = Some keyInfo"
    and recheck: "checkEntryInKeychain env label w2 = ((False, None), w3, t3)"
    and store: "storePasswordInKeychain env label keyInfo pin w3 = (Some e, w4, t4)"
    and other: "e \<noteq> ErrorDuplicateItem"
  shows "GetPIN fn env s w =
           (Return pin None, w4,
            t1 @ t2 @ helperErrorLine err @ t3 @
            [EvAddItem (passwordItem label keyInfo pin) (Some e)])
       \<and> (\<forall>w5 t5. checkEntryInKeychain env label w4 = ((False, None), w5, t5) \<longrightarrow>
             GetPIN fn env s w4 = emit t5 (firstCapture env s label w5)
             \<and> (\<exists>r rest. snd (snd (GetPIN fn env s w4)) = t5 @ EvPinentryNew r # rest))"
proof -
  have a: "GetPIN fn env s w =
           (Return pin None, w4,
            t1 @ t2 @ helperErrorLine err @ t3 @
            [EvAddItem (passwordItem label keyInfo pin) (Some e)])"
    using GetPIN_store_path(1) [OF parsed label absent asked nonempty kinfo recheck store, of fn]
      storePasswordInKeychain_trace [OF store] other
    by simp
  have b: "GetPIN fn env s w4 = emit t5 (firstCapture env s label w5)
           \<and> (\<exists>r rest. snd (snd (GetPIN fn env s w4)) = t5 @ EvPinentryNew r # rest)"
    if again: "checkEntryInKeychain env label w4 = ((False, None), w5, t5)" for w5 t5
  proof -
    have g: "GetPIN fn env s w4 = emit t5 (firstCapture env s label w5)"
      using GetPIN_absent [OF parsed again [unfolded label]] label by simp
    from firstCapture_starts_helper [of env s label w5] obtain r rest where
      "snd (snd (firstCapture env s label w5)) = EvPinentryNew r # rest" by blast
    then have "snd (snd (GetPIN fn env s w4)) = t5 @ EvPinentryNew r # rest"
      unfolding g by (cases "firstCapture env s label w5") (simp add: emit_def)
    with g show ?thesis by blast
  qed
  from a b show ?thesis by blast
qed

theorem GetPIN_ignores_store_error_witness:
  "parseDesc (Desc aliceSettings) = Inr (''Alice'', ''alice@example.com'', ''A1B2C3D4'')
   \<and> aliceLabel = keychainLabel ''Alice'' ''alice@example.com'' ''A1B2C3D4''
   \<and> fst (checkEntryInKeychain demoEnv aliceLabel addFailsWorld) = (False, None)
   \<and> fst (askForPassword demoEnv aliceSettings addFailsWorld) = (''1234'', None)
   \<and> goIndex (strings_Split (KeyInfo aliceSettings) ''/'') 1 = Some ''CACHEID''
   \<and> fst (storePasswordInKeychain demoEnv aliceLabel ''CACHEID'' ''1234'' addFailsWorld)
       = Some (ErrorOther ''errSecNotAvailable'')
   \<and> ErrorOther ''errSecNotAvailable'' \<noteq> ErrorDuplicateItem
   \<and> fst (GetPIN demoAuth demoEnv aliceSettings addFailsWorld) = Return ''1234'' None
   \<and> fst (snd (GetPIN demoAuth demoEnv aliceSettings addFailsWorld)) = addFailsWorld
   \<and> (\<exists>t5 r rest. snd (snd (GetPIN demoAuth demoEnv aliceSettings addFailsWorld))
                     = t5 @ EvPinentryNew r # rest)"
proof -
  let ?e = "ErrorOther ''errSecNotAvailable''"
  have h1: "parseDesc (Desc aliceSettings) = Inr (''Alice'', ''alice@example.com'', ''A1B2C3D4'')"
    by code_simp
  have h2: "aliceLabel = keychainLabel ''Alice'' ''alice@example.com'' ''A1B2C3D4''"
    by code_simp
  have "fst (checkEntryInKeychain demoEnv aliceLabel addFailsWorld) = (False, None)"
    and "fst (snd (checkEntryInKeychain demoEnv aliceLabel addFailsWorld)) = addFailsWorld"
    by code_simp+
  from run_tripleI [OF this] obtain t1 where
    h3: "checkEntryInKeychain demoEnv aliceLabel addFailsWorld
           = ((False, None), addFailsWorld, t1)" ..
  have "fst (askForPassword demoEnv aliceSettings addFailsWorld) = (''1234'', None)"
    and "fst (snd (askForPassword demoEnv aliceSettings addFailsWorld)) = addFailsWorld"
    by code_simp+
  from run_tripleI [OF this] obtain t2 where
    h4: "askForPassword demoEnv aliceSettings addFailsWorld
           = ((''1234'', None), addFailsWorld, t2)" ..
  have h5: "''1234'' \<noteq> []" by simp
  have h6: "goIndex (strings_Split (KeyInfo aliceSettings) ''/'') 1 = Some ''CACHEID''"
    by code_simp
  have "fst (storePasswordInKeychain demoEnv aliceLabel ''CACHEID'' ''1234'' addFailsWorld)
          = Some ?e"
    and "fst (snd (storePasswordInKeychain demoEnv aliceLabel ''CACHEID'' ''1234'' addFailsWorld))
          = addFailsWorld"
    by code_simp+
  from run_tripleI [OF this] obtain t4 where
    h7: "storePasswordInKeychain demoEnv aliceLabel ''CACHEID'' ''1234'' addFailsWorld
           = (Some ?e, addFailsWorld, t4)" ..
  have h8: "?e \<noteq> ErrorDuplicateItem" by simp
  note inst = GetPIN_ignores_store_error [OF h1 h2 h3 h4 h5 h6 h3 h7 h8, of demoAuth]
  from inst [THEN conjunct1]
  have r1: "fst (GetPIN demoAuth demoEnv aliceSettings addFailsWorld) = Return ''1234'' None"
    and r2: "fst (snd (GetPIN demoAuth demoEnv aliceSettings addFailsWorld)) = addFailsWorld"
    by simp_all
  from inst [THEN conjunct2] h3
  have r3: "\<exists>t5 r rest. snd (snd (GetPIN demoAuth demoEnv aliceSettings addFailsWorld))
                     = t5 @ EvPinentryNew r # rest"
    by blast
  show ?thesis
    unfolding h3 h4 h7 using h1 h2 h6 h8 r1 r2 r3 by simp
qed

section \<open>Repeat access is gated by the authenticator\<close>

lemma repeatAccess_not_allowed:
  assumes "fn (authReason label) w1 = (decision, w2)" and "decision \<noteq> (True, None)"
    and "repeatAccess fn env label w1 = (out, w', t)"
  shows "payloadReads t = []" and "out = Return [] None \<or> out = Stopped Exit"
  using assms
  by (auto simp: repeatAccess_def call_def emit_def logger_Fatalf_def logger_Printf_def
        payloadReads_def split: prod.splits option.splits if_splits)

lemma repeatAccess_denied:
  assumes "fn (authReason label) w1 = ((False, None), w2)"
  shows "repeatAccess fn env label w1 =
           (Return [] None, w2,
            [EvAuth (authReason label) (False, None), LoggerPrintf ''Failed to authenticate'' []])"
  using assms
  by (simp add: repeatAccess_def call_def emit_def logger_Printf_def)

text \<open>
  C1. When the label of the request exists in the keychain, the callback reads the stored
  data, and returns a non-empty string, only if the authenticator answered \<open>(true, nil)\<close>
  in this call. When the authenticator denies (\<open>(false, nil)\<close>), the callback returns the
  empty string with a nil error: the process goes on, the trace has no read of stored data,
  and the world is as the authenticator left it.
\<close>

theorem GetPIN_found_requires_allowed:
  assumes parsed: "parseDesc (Desc s) = Inr (name, email, keyID)"
    and found: "checkEntryInKeychain env (keychainLabel name email keyID) w = ((True, None), w1, t1)"
    and auth: "fn (authReason (keychainLabel name email keyID)) w1 = (decision, w2)"
    and run: "GetPIN fn env s w = (out, w', t)"
  shows "(payloadReads t \<noteq> [] \<longrightarrow> decision = (True, None))
       \<and> (\<forall>p e. out = Return p e \<and> p \<noteq> [] \<longrightarrow> decision = (True, None))
       \<and> (decision = (False, None) \<longrightarrow>
            out = Return [] None \<and> payloadReads t = [] \<and> w' = w2)"
proof -
  from run obtain t2 where
    ra: "repeatAccess fn env (keychainLabel name email keyID) w1 = (out, w', t2)"
    and t: "t = t1 @ t2"
    unfolding GetPIN_found [OF parsed found] emit_eq by blast
  have t1: "payloadReads t1 = []"
    using checkEntryInKeychain_views(1) [OF found] .
  have reads: "payloadReads t = payloadReads t2"
    using t t1 by (simp add: payloadReads_def)
  have a: "payloadReads t \<noteq> [] \<longrightarrow> decision = (True, None)"
    using repeatAccess_not_allowed(1) [OF auth _ ra] reads by auto
  have b: "\<forall>p e. out = Return p e \<and> p \<noteq> [] \<longrightarrow> decision = (True, None)"
    using repeatAccess_not_allowed(2) [OF auth _ ra] by auto
  have c: "decision = (False, None) \<longrightarrow> out = Return [] None \<and> payloadReads t = [] \<and> w' = w2"
  proof
    assume d: "decision = (False, None)"
    from auth d have "repeatAccess fn env (keychainLabel name email keyID) w1 =
        (Return [] None, w2, [EvAuth (authReason (keychainLabel name email keyID)) (False, None),
           LoggerPrintf ''Failed to authenticate'' []])"
      by (intro repeatAccess_denied) simp
    with ra reads show "out = Return [] None \<and> payloadReads t = [] \<and> w' = w2"
      by (auto simp: payloadReads_def)
  qed
  from a b c show ?thesis by blast
qed

theorem GetPIN_found_requires_allowed_witness:
  "parseDesc (Desc aliceSettings) = Inr (''Alice'', ''alice@example.com'', ''A1B2C3D4'')
   \<and> fst (checkEntryInKeychain demoEnv
            (keychainLabel ''Alice'' ''alice@example.com'' ''A1B2C3D4'') deniedWorld) = (True, None)
   \<and> fst (demoAuth (authReason (keychainLabel ''Alice'' ''alice@example.com'' ''A1B2C3D4''))
            deniedWorld) = (False, None)
   \<and> fst (GetPIN demoAuth demoEnv aliceSettings deniedWorld) = Return [] None
   \<and> payloadReads (snd (snd (GetPIN demoAuth demoEnv aliceSettings deniedWorld))) = []"
proof -
  let ?l = "keychainLabel ''Alice'' ''alice@example.com'' ''A1B2C3D4''"
  have h1: "parseDesc (Desc aliceSettings) = Inr (''Alice'', ''alice@example.com'', ''A1B2C3D4'')"
    by code_simp
  have "fst (checkEntryInKeychain demoEnv ?l deniedWorld) = (True, None)"
    and "fst (snd (checkEntryInKeychain demoEnv ?l deniedWorld)) = deniedWorld"
    by code_simp+
  then obtain t1 where
    h2: "checkEntryInKeychain demoEnv ?l deniedWorld = ((True, None), deniedWorld, t1)"
    by (metis prod.collapse)
  have h3: "demoAuth (authReason ?l) deniedWorld = ((False, None), deniedWorld)"
    by code_simp
  obtain out w' t where h4: "GetPIN demoAuth demoEnv aliceSettings deniedWorld = (out, w', t)"
    by (metis prod_cases3)
  from GetPIN_found_requires_allowed [OF h1 h2 h3 h4] h1 h2 h3 h4
  show ?thesis by simp
qed

section \<open>Reading the stored PIN\<close>




text \<open>
  C9. \<open>passwordFromKeychain\<close> indexes the first result of its query without checking that
  there is one. For every label, whenever the query succeeds (nil error) with no item, the
  function panics at \<^verbatim>\<open>results[0]\<close>: it returns neither an error nor an empty password.
\<close>

theorem passwordFromKeychain_no_result_panics:
  assumes "keychain_QueryItem env (dataQuery label) w = (([], None), w')"
  shows "passwordFromKeychain env label w =
           (None, w', [EvQueryItem (dataQuery label) ([], None)])
         \<and> (\<forall>password err. fst (passwordFromKeychain env label w) \<noteq> Some (password, err))"
  using assms by (simp add: passwordFromKeychain_def call_def goIndex_def)

theorem passwordFromKeychain_no_result_panics_witness:
  "keychain_QueryItem demoEnv (dataQuery aliceLabel) emptyWorld = (([], None), emptyWorld)
   \<and> fst (passwordFromKeychain demoEnv aliceLabel emptyWorld) = None"
proof -
  have h: "keychain_QueryItem demoEnv (dataQuery aliceLabel) emptyWorld = (([], None), emptyWorld)"
    by (simp add: demoEnv_def emptyWorld_def)
  from passwordFromKeychain_no_result_panics [OF h] h show ?thesis by simp
qed

text \<open>
  The panic is reachable from the callback: the entry exists at the first check, the
  authenticator allows, and the query for the data then finds no item.
\<close>

lemma GetPIN_read_no_result_panics:
  assumes parsed: "parseDesc (Desc s) = Inr (name, email, keyID)"
    and label: "label = keychainLabel name email keyID"
    and found: "checkEntryInKeychain env label w = ((True, None), w1, t1)"
    and auth: "fn (authReason label) w1 = ((True, None), w2)"
    and query: "keychain_QueryItem env (dataQuery label) w2 = (([], None), w3)"
  shows "GetPIN fn env s w =
           (Stopped Panic, w3,
            t1 @ [EvAuth (authReason label) (True, None),
                  EvQueryItem (dataQuery label) ([], None)])"
proof -
  have g: "GetPIN fn env s w = emit t1 (repeatAccess fn env label w1)"
    using GetPIN_found [OF parsed found [unfolded label]] label by simp
  from auth query show ?thesis
    unfolding g
    by (simp add: repeatAccess_def passwordFromKeychain_def call_def emit_def goIndex_def)
qed

section \<open>The logs do not depend on the secrets\<close>

lemma observe_emit:
  "observe (emit t r) = (case observe r of (x, w, l) \<Rightarrow> (x, w, logOutput t @ l))"
  by (cases r) (simp add: observe_def emit_def views)

lemma repeatAccess_withSecrets:
  "observe (repeatAccess fn (withSecrets f finv g env) label w)
     = observe (repeatAccess fn env label w)"
  by (auto simp: observe_def repeatAccess_def passwordFromKeychain_def withSecrets_def call_def
        emit_def views goIndex_def logger_Fatalf_def logger_Printf_def log_Printf_def Let_def
        split: prod.splits option.splits)

lemma checkEntryInKeychain_withSecrets:
  assumes "checkEntryInKeychain env label w = (r, w', t)"
  shows "\<exists>t'. checkEntryInKeychain (withSecrets f finv g env) label w = (r, w', t')"
  using assms
  by (auto simp: checkEntryInKeychain_def withSecrets_def call_def Let_def
        split: prod.splits option.splits)

lemma askForPassword_withSecrets:
  assumes "askForPassword env s w = ((pin, err), w', t)" and "f [] = []"
  shows "\<exists>t'. askForPassword (withSecrets f finv g env) s w = ((f pin, err), w', t')"
  using assms
  by (auto simp: askForPassword_def withSecrets_def call_def emit_def
        split: prod.splits option.splits)

lemma storePasswordInKeychain_withSecrets:
  assumes "storePasswordInKeychain env label keyInfo pin w = (serr, w', t)"
    and "finv (f pin) = pin"
  shows "\<exists>t'. storePasswordInKeychain (withSecrets f finv g env) label keyInfo (f pin) w
                = (serr, w', t')"
  using assms
  by (auto simp: storePasswordInKeychain_def withSecrets_def call_def passwordItem_def
        NewItem_def Let_def split: prod.splits option.splits)

lemma firstCapture_withSecrets:
  assumes inv: "\<forall>p. finv (f p) = p" and empty: "\<forall>p. f p = [] \<longleftrightarrow> p = []"
  shows "observe (firstCapture (withSecrets f finv g env) s label w)
           = observe (firstCapture env s label w)"
proof -
  let ?env' = "withSecrets f finv g env"
  obtain pin err w2 t2 where asked: "askForPassword env s w = ((pin, err), w2, t2)"
    by (metis prod_cases3 surj_pair)
  from askForPassword_withSecrets [OF asked, of f finv g] empty obtain t2' where
    asked': "askForPassword ?env' s w = ((f pin, err), w2, t2')" by auto
  note l2 = askForPassword_views(3) [OF asked] askForPassword_views(3) [OF asked']
  show ?thesis
  proof (cases "pin = []")
    case True
    with empty have "f pin = []" by simp
    with True asked asked' l2 show ?thesis
      by (simp add: firstCapture_empty observe_def views)
  next
    case nonempty: False
    with empty have nonempty': "f pin \<noteq> []" by simp
    show ?thesis
    proof (cases "goIndex (strings_Split (KeyInfo s) ''/'') 1")
      case None
      from firstCapture_no_slash [OF asked nonempty None]
        firstCapture_no_slash [OF asked' nonempty' None] l2
      show ?thesis by (simp add: observe_def views)
    next
      case (Some keyInfo)
      obtain ex cerr w3 t3 where
        check: "checkEntryInKeychain env label w2 = ((ex, cerr), w3, t3)"
        by (metis prod_cases3 surj_pair)
      from checkEntryInKeychain_withSecrets [OF check] obtain t3' where
        check': "checkEntryInKeychain ?env' label w2 = ((ex, cerr), w3, t3')" by blast
      note l3 = checkEntryInKeychain_views(3) [OF check] checkEntryInKeychain_views(3) [OF check']
      show ?thesis
      proof (cases cerr)
        case (Some ce)
        from firstCapture_recheck_error [OF asked nonempty \<open>goIndex _ 1 = Some keyInfo\<close>
            check [unfolded Some]]
          firstCapture_recheck_error [OF asked' nonempty' \<open>goIndex _ 1 = Some keyInfo\<close>
            check' [unfolded Some]] l2 l3
        show ?thesis by (simp add: observe_def views)
      next
        case None
        show ?thesis
        proof (cases ex)
          case True
          with check check' None
          have c: "checkEntryInKeychain env label w2 = ((True, None), w3, t3)"
            and c': "checkEntryInKeychain ?env' label w2 = ((True, None), w3, t3')"
            by simp_all
          from firstCapture_race [OF asked nonempty \<open>goIndex _ 1 = Some keyInfo\<close> c]
            firstCapture_race [OF asked' nonempty' \<open>goIndex _ 1 = Some keyInfo\<close> c'] l2 l3
          show ?thesis by (simp add: observe_def views)
        next
          case False
          with check check' None
          have c: "checkEntryInKeychain env label w2 = ((False, None), w3, t3)"
            and c': "checkEntryInKeychain ?env' label w2 = ((False, None), w3, t3')"
            by simp_all
          obtain serr w4 t4 where
            store: "storePasswordInKeychain env label keyInfo pin w3 = (serr, w4, t4)"
            using prod_cases3 by blast
          from storePasswordInKeychain_withSecrets [OF store, of finv f g] inv obtain t4' where
            store': "storePasswordInKeychain ?env' label keyInfo (f pin) w3 = (serr, w4, t4')"
            by auto
          from firstCapture_store [OF asked nonempty \<open>goIndex _ 1 = Some keyInfo\<close> c store]
            firstCapture_store [OF asked' nonempty' \<open>goIndex _ 1 = Some keyInfo\<close> c' store']
            l2 l3 storePasswordInKeychain_trace [OF store] storePasswordInKeychain_trace [OF store']
          show ?thesis by (simp add: observe_def views)
        qed
      qed
    qed
  qed
qed

lemma GetPIN_withSecrets:
  assumes inv: "\<forall>p. finv (f p) = p" and empty: "\<forall>p. f p = [] \<longleftrightarrow> p = []"
  shows "observe (GetPIN fn (withSecrets f finv g env) s w) = observe (GetPIN fn env s w)"
proof (cases "parseDesc (Desc s)")
  case (Inl stopped)
  then show ?thesis by (simp add: GetPIN_def split: prod.splits)
next
  case (Inr r)
  then obtain name email keyID where
    parsed: "parseDesc (Desc s) = Inr (name, email, keyID)" by (cases r) auto
  let ?env' = "withSecrets f finv g env"
  let ?label = "keychainLabel name email keyID"
  obtain ex cerr w1 t1 where
    check: "checkEntryInKeychain env ?label w = ((ex, cerr), w1, t1)"
    by (metis prod_cases3 surj_pair)
  from checkEntryInKeychain_withSecrets [OF check] obtain t1' where
    check': "checkEntryInKeychain ?env' ?label w = ((ex, cerr), w1, t1')" by blast
  note l1 = checkEntryInKeychain_views(3) [OF check] checkEntryInKeychain_views(3) [OF check']
  show ?thesis
  proof (cases cerr)
    case (Some ce)
    with parsed check check' l1 show ?thesis
      by (simp add: GetPIN_def observe_def logger_Fatalf_def emit_def views)
  next
    case None
    show ?thesis
    proof (cases ex)
      case True
      with check check' None
      have c: "checkEntryInKeychain env ?label w = ((True, None), w1, t1)"
        and c': "checkEntryInKeychain ?env' ?label w = ((True, None), w1, t1')"
        by simp_all
      show ?thesis
        unfolding GetPIN_found [OF parsed c] GetPIN_found [OF parsed c'] observe_emit
          repeatAccess_withSecrets
        using l1 by simp
    next
      case False
      with check check' None
      have c: "checkEntryInKeychain env ?label w = ((False, None), w1, t1)"
        and c': "checkEntryInKeychain ?env' ?label w = ((False, None), w1, t1')"
        by simp_all
      show ?thesis
        unfolding GetPIN_absent [OF parsed c] GetPIN_absent [OF parsed c'] observe_emit
          firstCapture_withSecrets [OF inv empty]
        using l1 by simp
    qed
  qed
qed

lemma repeatAccess_log_args:
  "ev \<in> set (snd (snd (repeatAccess fn env label w))) \<Longrightarrow> ArgString x \<notin> set (logArgs ev)"
  by (auto simp: repeatAccess_def passwordFromKeychain_def call_def emit_def goIndex_def
        logger_Fatalf_def logger_Printf_def log_Printf_def Let_def
        split: prod.splits option.splits if_splits)

lemma firstCapture_log_args:
  "ev \<in> set (snd (snd (firstCapture env s label w))) \<Longrightarrow> ArgString x \<notin> set (logArgs ev)"
  by (auto simp: firstCapture_def askForPassword_def checkEntryInKeychain_def
        storePasswordInKeychain_def call_def emit_def goIndex_def
        logger_Fatalf_def logger_Printf_def Let_def
        split: prod.splits option.splits if_splits)

lemma GetPIN_log_args:
  assumes ev: "ev \<in> set (snd (snd (GetPIN fn env s w)))"
    and x: "ArgString x \<in> set (logArgs ev)"
  shows "extractedKeyID (Desc s) = Some x"
proof (cases "parseDesc (Desc s)")
  case (Inl stopped)
  with ev x show ?thesis
    by (auto simp: GetPIN_def parseDesc_cases [of "Desc s"] split: if_splits option.splits)
next
  case (Inr r)
  then obtain name email keyID where
    parsed: "parseDesc (Desc s) = Inr (name, email, keyID)" by (cases r) auto
  let ?label = "keychainLabel name email keyID"
  obtain ex cerr w1 t1 where
    check: "checkEntryInKeychain env ?label w = ((ex, cerr), w1, t1)"
    by (metis prod_cases3 surj_pair)
  from checkEntryInKeychain_trace [OF check] obtain res where
    t1: "t1 = [EvQueryItem (metadataQuery ?label) res]" by blast
  have False
  proof (cases cerr)
    case (Some ce)
    with parsed check t1 ev x show False
      by (auto simp: GetPIN_def emit_def logger_Fatalf_def)
  next
    case None
    show False
    proof (cases ex)
      case True
      with parsed check None t1 ev x repeatAccess_log_args [of ev fn env ?label w1 x]
      show False
        by (cases "repeatAccess fn env ?label w1") (auto simp: GetPIN_def emit_def)
    next
      case False
      with parsed check None t1 ev x firstCapture_log_args [of ev env s ?label w1 x]
      show False
        by (cases "firstCapture env s ?label w1") (auto simp: GetPIN_def emit_def)
    qed
  qed
  then show ?thesis ..
qed

text \<open>
  C5. Take any run of the callback, and the run in the environment that differs only in
  the secret bytes: another non-empty PIN typed into the helper, other data in the
  keychain (\<open>f\<close> keeps the empty capture empty, and \<open>finv\<close> undoes \<open>f\<close>). Both runs log the
  same lines, with the same arguments, to the logger and to the standard logger, and end
  the same way, with the same error value. So nothing that is logged depends on the PIN or
  on the stored data. Moreover the only string that is ever an argument of a logged line is
  the key ID extracted from the description; every other argument is an error value.
\<close>

theorem GetPIN_log_independent_of_secrets:
  assumes inv: "\<forall>p. finv (f p) = p" and empty: "\<forall>p. f p = [] \<longleftrightarrow> p = []"
  shows "logOutput (snd (snd (GetPIN fn (withSecrets f finv g env) s w)))
           = logOutput (snd (snd (GetPIN fn env s w)))
       \<and> redact (fst (GetPIN fn (withSecrets f finv g env) s w))
           = redact (fst (GetPIN fn env s w))
       \<and> (\<forall>ev \<in> set (snd (snd (GetPIN fn env s w))).
            \<forall>x. ArgString x \<in> set (logArgs ev) \<longrightarrow> extractedKeyID (Desc s) = Some x)"
  using GetPIN_withSecrets [OF inv empty, of fn g env s w] GetPIN_log_args [of _ fn env s w]
  by (simp add: observe_def)

theorem GetPIN_log_independent_of_secrets_witness:
  "(\<forall>p::bytes. rev (rev p) = p) \<and> (\<forall>p::bytes. rev p = [] \<longleftrightarrow> p = [])
   \<and> fst (GetPIN demoAuth demoEnv aliceSettings raceWorld) = Return ''1234'' None
   \<and> fst (GetPIN demoAuth (withSecrets rev rev rev demoEnv) aliceSettings raceWorld)
       = Return ''4321'' None
   \<and> logOutput (snd (snd (GetPIN demoAuth (withSecrets rev rev rev demoEnv) aliceSettings
                              raceWorld)))
       = logOutput (snd (snd (GetPIN demoAuth demoEnv aliceSettings raceWorld)))
   \<and> logOutput (snd (snd (GetPIN demoAuth demoEnv aliceSettings raceWorld)))
       = [LoggerPrintf
            ''The keychain entry was created by pinentry-mac. Permission will be required on next run.''
            []]"
proof -
  have h1: "\<forall>p::bytes. rev (rev p) = p" by simp
  have h2: "\<forall>p::bytes. rev p = [] \<longleftrightarrow> p = []" by simp
  have r1: "fst (GetPIN demoAuth demoEnv aliceSettings raceWorld) = Return ''1234'' None"
    by code_simp
  have r2: "fst (GetPIN demoAuth (withSecrets rev rev rev demoEnv) aliceSettings raceWorld)
       = Return ''4321'' None"
    by code_simp
  have r3: "logOutput (snd (snd (GetPIN demoAuth demoEnv aliceSettings raceWorld)))
       = [LoggerPrintf
            ''The keychain entry was created by pinentry-mac. Permission will be required on next run.''
            []]"
    by code_simp
  from GetPIN_log_independent_of_secrets [OF h1 h2, of demoAuth rev demoEnv aliceSettings raceWorld]
    h1 h2 r1 r2 r3
  show ?thesis by blast
qed

end
